theory Spec2Isabelle
  imports Complex_Main "HOL-Library.Word" "HOL-Library.Sublist"
begin

unbundle bit_operations_syntax

section \<open>Data model\<close>

text \<open>
  A Python \<open>str\<close> is a sequence of code points; a character is the natural number
  \<open>ord\<close> gives for it, and \<open>chr\<close> is the identity on it.
\<close>

type_synonym pystr = "nat list"

definition str :: "string \<Rightarrow> pystr" where
  "str s = map of_char s"

text \<open>The terminator \<open>"###"\<close> (\<open>ord('#') = 35\<close>) and the not-found outcome.\<close>

definition hashes :: pystr where
  "hashes = [35, 35, 35]"

definition not_found :: pystr where
  "not_found = str ''No hidden message found''"

text \<open>
  The parameters the \<open>wave\<close> module reads from the header, and a WAV byte stream
  of 16-bit PCM audio as the container collaborator sees it: the parameters and the
  frames, one 16-bit pattern per sample.
\<close>

record wav_params =
  nchannels :: nat
  sampwidth :: nat
  framerate :: nat
  nframes :: nat
  comptype :: string
  compname :: string

record wav =
  params :: wav_params
  frames :: "16 word list"

text \<open>
  NumPy's \<open>float32\<close> arrays hold finite values here, each a real number. Conversions,
  \<open>np.clip\<close>, \<open>np.abs\<close> and comparisons are exact on them; the arithmetic that rounds
  (\<open>+\<close>, \<open>-\<close>, \<open>*\<close>, \<open>np.sum\<close>) belongs to NumPy and is a parameter of the model.
\<close>

record float_ops =
  fadd :: "real \<Rightarrow> real \<Rightarrow> real"
  fsub :: "real \<Rightarrow> real \<Rightarrow> real"
  fmul :: "real \<Rightarrow> real \<Rightarrow> real"
  fsum :: "real list \<Rightarrow> real"

text \<open>Arithmetic without rounding, which \<open>float32\<close> agrees with on small integers.\<close>

definition exact_ops :: float_ops where
  "exact_ops = \<lparr>fadd = (+), fsub = (-), fmul = (*), fsum = sum_list\<rparr>"

text \<open>\<open>np.frombuffer(frames, dtype=np.int16).astype(np.float32)\<close>: the signed value.\<close>

definition int16_val :: "16 word \<Rightarrow> real" where
  "int16_val s = real_of_int (sint s)"

text \<open>\<open>np.int16(x)\<close> on a float truncates towards zero.\<close>

definition trunc :: "real \<Rightarrow> int" where
  "trunc x = (if 0 \<le> x then \<lfloor>x\<rfloor> else \<lceil>x\<rceil>)"

definition to_int16 :: "real \<Rightarrow> 16 word" where
  "to_int16 x = word_of_int (trunc x)"

definition clip :: "real \<Rightarrow> real" where
  "clip x = max (- 32768) (min 32767 x)"

definition read_wav_bytes :: "wav \<Rightarrow> real list \<times> wav_params" where
  "read_wav_bytes audio_bytes = (map int16_val (frames audio_bytes), params audio_bytes)"

definition write_wav_bytes :: "real list \<Rightarrow> wav_params \<Rightarrow> wav" where
  "write_wav_bytes samples ps = \<lparr>params = ps, frames = map (to_int16 \<circ> clip) samples\<rparr>"

text \<open>Python's \<open>xs[s:e]\<close> for \<open>0 \<le> s\<close> and \<open>0 \<le> e\<close>: clipped to the list, never an error.\<close>

definition slice :: "'a list \<Rightarrow> nat \<Rightarrow> nat \<Rightarrow> 'a list" where
  "slice xs s e = take (e - s) (drop s xs)"

section \<open>Bit framing\<close>

text \<open>\<open>format(n, "b")\<close>: the binary digits of \<open>n\<close>, most significant first.\<close>

fun bin :: "nat \<Rightarrow> bool list" where
  "bin n = (if n < 2 then [odd n] else bin (n div 2) @ [odd n])"

declare bin.simps [simp del]

text \<open>\<open>format(n, "08b")\<close>: padded with zeros on the left to at least 8 digits.\<close>

definition format_08b :: "nat \<Rightarrow> bool list" where
  "format_08b n = replicate (8 - length (bin n)) False @ bin n"

text \<open>\<open>int(s, 2)\<close> on a string of binary digits.\<close>

definition from_bin :: "bool list \<Rightarrow> nat" where
  "from_bin bs = foldl (\<lambda>acc b. 2 * acc + (if b then 1 else 0)) 0 bs"

text \<open>\<open>message += "###"; bits = "".join(format(ord(c), "08b") for c in message)\<close>\<close>

definition encode_bits :: "pystr \<Rightarrow> bool list" where
  "encode_bits message = concat (map format_08b (message @ hashes))"

section \<open>LSB\<close>

text \<open>\<open>flat[i] = (flat[i] & 0xFFFE) | int(b)\<close> for each \<open>i, b\<close> of \<open>enumerate(bits)\<close>.\<close>

definition set_lsb :: "16 word \<Rightarrow> bool \<Rightarrow> 16 word" where
  "set_lsb s b = (s AND 0xFFFE) OR (if b then 1 else 0)"

text \<open>
  The loop, from index \<open>i\<close> on. An index out of range would raise IndexError; the
  capacity check before the loop excludes it, and \<open>embed_nth\<close> below is stated for
  indices in range.
\<close>

fun embed :: "nat \<Rightarrow> bool list \<Rightarrow> 16 word list \<Rightarrow> 16 word list" where
  "embed i [] flat = flat"
| "embed i (b # bits) flat = embed (Suc i) bits (flat[i := set_lsb (flat ! i) b])"

text \<open>
  \<open>samples.astype(np.int16)\<close> brings the floats back to 16-bit integers, and
  \<open>view(np.uint16)\<close> reads the same 16 bits unsigned: a word has no sign of its own.
  \<open>None\<close> is the result of the capacity check. \<open>write_wav_bytes\<close> receives the
  array viewed as \<open>int16\<close> again, that is the signed values of the words.
\<close>

definition encode_lsb :: "wav \<Rightarrow> pystr \<Rightarrow> wav option" where
  "encode_lsb audio_bytes message =
     (let (samples, ps) = read_wav_bytes audio_bytes;
          flat = map to_int16 samples;
          bits = encode_bits message
      in if length bits > length flat then None
         else Some (write_wav_bytes (map int16_val (embed 0 bits flat)) ps))"

text \<open>\<open>s.endswith(suf)\<close>\<close>

definition endswith :: "pystr \<Rightarrow> pystr \<Rightarrow> bool" where
  "endswith s suf = suffix suf s"

text \<open>
  The loop of \<open>decode_lsb\<close> over the groups of 8 bits, with the characters
  accumulated so far.
\<close>

fun decode_chars :: "bool list \<Rightarrow> pystr \<Rightarrow> pystr" where
  "decode_chars bits chars =
     (if length bits < 8 then not_found
      else let char_val = from_bin (take 8 bits) in
        if char_val = 0 then not_found
        else let chars' = chars @ [char_val] in
          if endswith chars' hashes then take (length chars' - 3) chars'
          else decode_chars (drop 8 bits) chars')"

declare decode_chars.simps [simp del]

definition decode_lsb :: "wav \<Rightarrow> pystr" where
  "decode_lsb stego_bytes =
     (let (samples, ps) = read_wav_bytes stego_bytes;
          flat = map to_int16 samples;
          bits = map (\<lambda>s. s AND 1 = 1) flat
      in decode_chars bits [])"

section \<open>Echo hiding: encode\<close>

definition chunk_size :: nat where
  "chunk_size = 8192"

text \<open>
  \<open>out[s:e] += v\<close> on a NumPy array, for \<open>s \<le> e \<le> len(out)\<close> and \<open>len(v) = e - s\<close>,
  which the guard before the only use ensures.
\<close>

definition iadd_slice :: "float_ops \<Rightarrow> real list \<Rightarrow> nat \<Rightarrow> nat \<Rightarrow> real list \<Rightarrow> real list" where
  "iadd_slice ops out s e v = take s out @ map2 (fadd ops) (slice out s e) v @ drop e out"

text \<open>
  The loop over \<open>enumerate(bits)\<close>, from index \<open>i\<close> on; \<open>stop\<close> is the source's
  \<open>end\<close>, an integer since \<open>len(samples) - max_delay\<close> is a difference, and \<open>b\<close>
  its \<open>bit\<close>. The first branch is the \<open>break\<close>. \<open>alpha * chunk\<close> multiplies every sample of the chunk.
\<close>

function echo_loop ::
  "float_ops \<Rightarrow> real list \<Rightarrow> nat \<Rightarrow> nat \<Rightarrow> real \<Rightarrow> nat \<Rightarrow> bool list \<Rightarrow> real list \<Rightarrow> real list"
where
  "echo_loop ops samples d0 d1 alpha i [] out = out"
| "echo_loop ops samples d0 d1 alpha i (b # bits) out =
     (let max_delay = max d0 d1;
          start = i * chunk_size;
          stop = min (int start + int chunk_size) (int (length samples) - int max_delay)
      in if stop \<le> int start then out
         else
           let delay = (if b then d1 else d0);
               chunk = slice samples start (nat stop);
               echo_start = start + delay;
               echo_end = echo_start + length chunk
           in echo_loop ops samples d0 d1 alpha (Suc i) bits
                (if echo_end \<le> length out
                 then iadd_slice ops out echo_start echo_end (map (fmul ops alpha) chunk)
                 else out))"
  by pat_completeness auto
termination
  by (relation "measure (\<lambda>(ops, samples, d0, d1, alpha, i, bits, out). length bits)") auto

declare echo_loop.simps [simp del]

definition encode_echo_simple ::
  "float_ops \<Rightarrow> wav \<Rightarrow> pystr \<Rightarrow> nat \<Rightarrow> nat \<Rightarrow> real \<Rightarrow> wav option"
where
  "encode_echo_simple ops audio_bytes message d0 d1 alpha =
     (let (samples, ps) = read_wav_bytes audio_bytes;
          bits = encode_bits message;
          max_delay = max d0 d1
      in if length bits * chunk_size + max_delay > length samples then None
         else Some (write_wav_bytes (echo_loop ops samples d0 d1 alpha 0 bits samples) ps))"

text \<open>
  What the loop amounts to at one index \<open>j\<close> of the output: starting from the input
  sample, each bit \<open>i\<close> whose shifted window \<open>[i * chunk_size + delay, i * chunk_size +
  delay + chunk_size)\<close> holds \<open>j\<close> adds \<open>alpha\<close> times the sample \<open>delay\<close> places
  before, in the order of the bits.
\<close>

definition echo_step ::
  "float_ops \<Rightarrow> real list \<Rightarrow> nat \<Rightarrow> nat \<Rightarrow> real \<Rightarrow> nat \<Rightarrow> real \<Rightarrow> nat \<times> bool \<Rightarrow> real"
where
  "echo_step ops samples d0 d1 alpha j =
     (\<lambda>acc (i, bit).
        let delay = (if bit then d1 else d0); s = i * chunk_size + delay
        in if s \<le> j \<and> j < s + chunk_size
           then fadd ops acc (fmul ops alpha (samples ! (j - delay))) else acc)"

definition echo_at ::
  "float_ops \<Rightarrow> real list \<Rightarrow> nat \<Rightarrow> nat \<Rightarrow> real \<Rightarrow> bool list \<Rightarrow> nat \<Rightarrow> real"
where
  "echo_at ops samples d0 d1 alpha bits j =
     foldl (echo_step ops samples d0 d1 alpha j) (samples ! j) (enumerate 0 bits)"

section \<open>Echo hiding: decode\<close>

text \<open>
  A diagnostic entry: the values the f-string
  \<open>"Chunk {i}: corr_d0={corr_d0:.2f}, corr_d1={corr_d1:.2f}, bit={bit}"\<close> formats.
\<close>

type_synonym diag = "nat \<times> real \<times> real \<times> bool"

text \<open>
  The loop over \<open>range(num_chunks)\<close>, from \<open>i\<close> on, with the lists built so far;
  \<open>stop\<close> is the source's \<open>end\<close>. The products and differences are elementwise on
  slices of equal length (\<open>corr_slices\<close> below), so NumPy raises no shape error. The
  delays are natural numbers, as the sliders give them.
\<close>

function echo_decode_loop ::
  "float_ops \<Rightarrow> real list \<Rightarrow> real list \<Rightarrow> nat \<Rightarrow> nat \<Rightarrow> int \<Rightarrow> nat \<Rightarrow> bool list \<Rightarrow> diag list
   \<Rightarrow> bool list \<times> diag list"
where
  "echo_decode_loop ops original stego d0 d1 num_chunks i bits debug_info =
     (if int i < num_chunks then
        (let max_delay = max d0 d1;
             start = i * chunk_size;
             stop = start + chunk_size
         in if stop + max_delay > min (length original) (length stego) then (bits, debug_info)
            else
              let echo = map2 (fsub ops) (slice stego start (stop + max_delay))
                                          (slice original start (stop + max_delay));
                  orig_chunk = slice original start stop;
                  echo_d0 = slice echo d0 (d0 + length orig_chunk);
                  echo_d1 = slice echo d1 (d1 + length orig_chunk);
                  corr_d0 = \<bar>fsum ops (map2 (fmul ops) orig_chunk echo_d0)\<bar>;
                  corr_d1 = \<bar>fsum ops (map2 (fmul ops) orig_chunk echo_d1)\<bar>;
                  bit = (corr_d1 > corr_d0)
              in echo_decode_loop ops original stego d0 d1 num_chunks (Suc i)
                   (bits @ [bit]) (debug_info @ [(i, corr_d0, corr_d1, bit)]))
      else (bits, debug_info))"
  by pat_completeness auto
termination
  by (relation "measure (\<lambda>(ops, original, stego, d0, d1, num_chunks, i, bits, debug_info).
        nat (num_chunks - int i))") auto

declare echo_decode_loop.simps [simp del]

text \<open>
  The second loop of \<open>decode_echo_simple\<close>, over the groups of 8 decided bits. A value
  that passes the range check is between 1 and 127, so \<open>chr\<close> and \<open>join\<close> cannot raise
  and the \<open>except: continue\<close> around them is never entered.
\<close>

fun echo_chars :: "bool list \<Rightarrow> pystr \<Rightarrow> pystr" where
  "echo_chars bits chars =
     (if length bits < 8 then not_found
      else let char_val = from_bin (take 8 bits) in
        if char_val = 0 \<or> char_val > 127 then not_found
        else let chars' = chars @ [char_val] in
          if endswith chars' hashes then take (length chars' - 3) chars'
          else echo_chars (drop 8 bits) chars')"

declare echo_chars.simps [simp del]

text \<open>The first loop with its setup: the decided bits and the diagnostics.\<close>

definition echo_detect ::
  "float_ops \<Rightarrow> real list \<Rightarrow> real list \<Rightarrow> nat \<Rightarrow> nat \<Rightarrow> bool list \<times> diag list"
where
  "echo_detect ops original stego d0 d1 =
     (let max_delay = max d0 d1;
          num_chunks = (int (min (length original) (length stego)) - int max_delay)
                         div int chunk_size
      in echo_decode_loop ops original stego d0 d1 num_chunks 0 [] [])"

definition decode_echo_simple ::
  "float_ops \<Rightarrow> wav \<Rightarrow> wav \<Rightarrow> nat \<Rightarrow> nat \<Rightarrow> pystr \<times> diag list \<times> bool list"
where
  "decode_echo_simple ops original_bytes stego_bytes d0 d1 =
     (let (original, ps) = read_wav_bytes original_bytes;
          (stego, ps') = read_wav_bytes stego_bytes;
          (bits, debug_info) = echo_detect ops original stego d0 d1
      in (echo_chars bits [], debug_info, bits))"

text \<open>
  The correlation magnitude of chunk \<open>i\<close> at offset \<open>d\<close>, index by index: the original
  chunk against the difference of stego and original \<open>d\<close> places on.
\<close>

definition corr_at :: "float_ops \<Rightarrow> real list \<Rightarrow> real list \<Rightarrow> nat \<Rightarrow> nat \<Rightarrow> real" where
  "corr_at ops original stego d i =
     \<bar>fsum ops (map (\<lambda>k. fmul ops (original ! (i * chunk_size + k))
                           (fsub ops (stego ! (i * chunk_size + d + k))
                                     (original ! (i * chunk_size + d + k))))
                  [0..<chunk_size])\<bar>"

text \<open>
  The number of chunks as the specification words it:
  \<open>floor((min(len(original), len(stego)) - max_delay) / chunk_size)\<close>.
\<close>

definition num_chunks_spec :: "nat \<Rightarrow> nat \<Rightarrow> nat \<Rightarrow> nat \<Rightarrow> int" where
  "num_chunks_spec len_original len_stego d0 d1 =
     (int (min len_original len_stego) - int (max d0 d1)) div int chunk_size"

text \<open>A buffer cut to its first \<open>n\<close> samples.\<close>

definition truncated :: "nat \<Rightarrow> wav \<Rightarrow> wav" where
  "truncated n w = w\<lparr>frames := take n (frames w)\<rparr>"

text \<open>The value of the \<open>k\<close>-th group of 8 bits.\<close>

definition byte_value :: "bool list \<Rightarrow> nat \<Rightarrow> nat" where
  "byte_value bits k = from_bin (slice bits (8 * k) (8 * k + 8))"

section \<open>Test buffers\<close>

text \<open>A silent mono buffer of \<open>n\<close> samples at 16 kHz, and one of constant level.\<close>

definition pcm_params :: "nat \<Rightarrow> wav_params" where
  "pcm_params n = \<lparr>nchannels = 1, sampwidth = 2, framerate = 16000, nframes = n,
     comptype = ''NONE'', compname = ''not compressed''\<rparr>"

definition constant_wav :: "nat \<Rightarrow> 16 word \<Rightarrow> wav" where
  "constant_wav n s = \<lparr>params = pcm_params n, frames = replicate n s\<rparr>"

definition silence :: "nat \<Rightarrow> wav" where
  "silence n = constant_wav n 0"

text \<open>The 32 samples that carry \<open>"A###"\<close> in their least-significant bits.\<close>

definition stego_A :: wav where
  "stego_A = \<lparr>params = pcm_params 32, frames =
     [0, 1, 0, 0, 0, 0, 0, 1,  0, 0, 1, 0, 0, 0, 1, 1,
      0, 0, 1, 0, 0, 0, 1, 1,  0, 0, 1, 0, 0, 0, 1, 1]\<rparr>"


text \<open>What \<open>encode_lsb\<close> makes of 25 samples of level \<open>-1\<close> and the empty message.\<close>

definition stego_empty :: wav where
  "stego_empty = \<lparr>params = pcm_params 25, frames =
     [65534, 65534, 65535, 65534, 65534, 65534, 65535, 65535,
      65534, 65534, 65535, 65534, 65534, 65534, 65535, 65535,
      65534, 65534, 65535, 65534, 65534, 65534, 65535, 65535, 65535]\<rparr>"


section \<open>Properties of the conversions\<close>

lemma sint_range16: "- 32768 \<le> sint (s :: 16 word) \<and> sint s \<le> 32767"
  using sint_ge[of s] sint_lt[of s] by simp

lemma trunc_of_int: "trunc (real_of_int k) = k"
  by (simp add: trunc_def)

lemma to_int16_val: "to_int16 (int16_val s) = s"
  unfolding to_int16_def int16_val_def trunc_of_int by simp

lemma clip_int16_val: "clip (int16_val s) = int16_val s"
proof -
  have "(- 32768 :: real) \<le> real_of_int (sint s)" "real_of_int (sint s) \<le> 32767"
    using sint_range16[of s] by linarith+
  then show ?thesis unfolding clip_def int16_val_def by linarith
qed

lemma map_to_int16_val: "map (to_int16 \<circ> int16_val) xs = xs"
  by (induction xs) (simp_all add: to_int16_val)

lemma map_write_int16_val: "map (to_int16 \<circ> clip \<circ> int16_val) xs = xs"
  by (induction xs) (simp_all add: to_int16_val clip_int16_val)

section \<open>Properties of the bit framing\<close>

lemma from_bin_snoc: "from_bin (bs @ [b]) = 2 * from_bin bs + (if b then 1 else 0)"
  by (simp add: from_bin_def)

lemma from_bin_bin: "from_bin (bin n) = n"
proof (induction n rule: bin.induct)
  case (1 n)
  show ?case
  proof (cases "n < 2")
    case True
    then have "n = 0 \<or> n = 1" by auto
    then show ?thesis by (auto simp: bin.simps[of n] from_bin_def)
  next
    case False
    with 1 show ?thesis
      by (subst bin.simps) (auto simp: from_bin_snoc)
  qed
qed

lemma from_bin_pad: "from_bin (replicate k False @ bs) = from_bin bs"
  by (induction k) (simp_all add: from_bin_def)

lemma length_bin: "0 < k \<Longrightarrow> n < 2 ^ k \<Longrightarrow> length (bin n) \<le> k"
proof (induction n arbitrary: k rule: bin.induct)
  case (1 n)
  show ?case
  proof (cases "n < 2")
    case True
    then show ?thesis using 1 by (simp add: bin.simps[of n])
  next
    case False
    with 1(2,3) have k: "1 < k" by (cases "k = 1") auto
    then obtain k' where k': "k = Suc k'" "0 < k'" by (cases k) auto
    have "n div 2 < 2 ^ k'" using 1(3) k' by auto
    with 1(1)[OF False, of k'] k' have "length (bin (n div 2)) \<le> k'" by simp
    then show ?thesis using False k' by (subst bin.simps) simp
  qed
qed

lemma from_bin_format: "from_bin (format_08b n) = n"
  by (simp add: format_08b_def from_bin_pad from_bin_bin)

lemma length_format: "n < 256 \<Longrightarrow> length (format_08b n) = 8"
  using length_bin[of 8 n] by (simp add: format_08b_def)

lemma length_concat_format:
  "\<forall>c\<in>set cs. c < 256 \<Longrightarrow> length (concat (map format_08b cs)) = 8 * length cs"
  by (induction cs) (simp_all add: length_format)

lemma length_encode_bits:
  "\<forall>c\<in>set m. c < 256 \<Longrightarrow> length (encode_bits m) = 8 * (length m + 3)"
  by (simp add: encode_bits_def hashes_def length_concat_format length_format)

section \<open>Properties of the LSB embedding\<close>

lemma bit_fffe: "bit (0xFFFE :: 16 word) n = (0 < n \<and> n < 16)"
proof -
  have e: "(0xFFFE :: 16 word) = NOT 1" by simp
  show ?thesis unfolding e by (simp only: bit_simps) auto
qed

lemma bit_set_lsb: "bit (set_lsb s b) n = (if n = 0 then b else bit s n)"
proof -
  have "bit s n \<Longrightarrow> n < 16" using bit_imp_le_length[of s n] by simp
  then show ?thesis
    unfolding set_lsb_def bit_or_iff bit_and_iff bit_fffe
    by (cases b) (auto simp: bit_1_iff)
qed

lemma set_lsb_bit: "(set_lsb s b AND 1 = 1) = b"
proof -
  have "(set_lsb s b AND 1 = 1) = bit (set_lsb s b) 0"
    by (simp add: and_one_eq bit_0 odd_iff_mod_2_eq_one)
  then show ?thesis by (simp add: bit_set_lsb)
qed

lemma set_lsb_upper: "drop_bit 1 (set_lsb s b) = drop_bit 1 s"
  by (rule bit_word_eqI) (simp add: bit_drop_bit_eq bit_set_lsb)

lemma embed_length: "length (embed i bits flat) = length flat"
  by (induction bits arbitrary: i flat) auto

lemma embed_nth_lt: "j < i \<Longrightarrow> embed i bits flat ! j = flat ! j"
  by (induction bits arbitrary: i flat) auto

lemma embed_nth:
  "i + length bits \<le> length flat \<Longrightarrow> j < length flat \<Longrightarrow>
   embed i bits flat ! j =
     (if i \<le> j \<and> j < i + length bits then set_lsb (flat ! j) (bits ! (j - i)) else flat ! j)"
proof (induction bits arbitrary: i flat)
  case Nil
  then show ?case by auto
next
  case (Cons b bits)
  show ?case
  proof (cases "j = i")
    case True
    then show ?thesis using Cons.prems by (simp add: embed_nth_lt)
  next
    case False
    then show ?thesis using Cons.prems Cons.IH[of "Suc i" "flat[i := set_lsb (flat ! i) b]"]
      by (auto simp: nth_Cons')
  qed
qed

lemma encode_lsb_eq:
  "encode_lsb w m =
     (if length (encode_bits m) > length (frames w) then None
      else Some \<lparr>params = params w, frames = embed 0 (encode_bits m) (frames w)\<rparr>)"
  by (simp add: encode_lsb_def read_wav_bytes_def write_wav_bytes_def map_to_int16_val
      map_write_int16_val Let_def)

lemma decode_lsb_eq: "decode_lsb w = decode_chars (map (\<lambda>s. s AND 1 = 1) (frames w)) []"
  by (simp add: decode_lsb_def read_wav_bytes_def to_int16_val Let_def comp_def)

lemma lsb_embed:
  assumes "length bits \<le> length flat"
  shows "map (\<lambda>s. s AND 1 = 1) (embed 0 bits flat) =
         bits @ map (\<lambda>s. s AND 1 = 1) (drop (length bits) flat)"
proof (rule nth_equalityI)
  show "length (map (\<lambda>s. s AND 1 = 1) (embed 0 bits flat)) =
        length (bits @ map (\<lambda>s. s AND 1 = 1) (drop (length bits) flat))"
    using assms by (simp add: embed_length)
next
  fix i assume "i < length (map (\<lambda>s. s AND 1 = 1) (embed 0 bits flat))"
  then have i: "i < length flat" by (simp add: embed_length)
  have e: "embed 0 bits flat ! i =
      (if i < length bits then set_lsb (flat ! i) (bits ! i) else flat ! i)"
    using i assms embed_nth[of 0 bits flat i] by simp
  show "map (\<lambda>s. s AND 1 = 1) (embed 0 bits flat) ! i =
        (bits @ map (\<lambda>s. s AND 1 = 1) (drop (length bits) flat)) ! i"
  proof (cases "i < length bits")
    case True
    then show ?thesis using i e by (simp add: embed_length nth_append set_lsb_bit)
  next
    case False
    then have "drop (length bits) flat ! (i - length bits) = flat ! i"
      using assms by simp
    then show ?thesis using False i e by (simp add: embed_length nth_append)
  qed
qed

lemma decode_chars_step:
  "0 < c \<Longrightarrow> c < 256 \<Longrightarrow>
   decode_chars (format_08b c @ rest) acc =
     (if endswith (acc @ [c]) hashes then take (length acc - 2) (acc @ [c])
      else decode_chars rest (acc @ [c]))"
  by (subst decode_chars.simps) (simp add: length_format from_bin_format Let_def)

lemma decode_chars_prefix:
  assumes "\<forall>c\<in>set p. 0 < c \<and> c < 256"
    and "\<forall>q. q \<noteq> [] \<and> prefix q (p @ [35, 35]) \<longrightarrow> \<not> endswith (acc @ q) hashes"
  shows "decode_chars (concat (map format_08b p) @ concat (map format_08b hashes) @ rest) acc
         = acc @ p"
  using assms
proof (induction p arbitrary: acc)
  case Nil
  have a: "\<not> endswith (acc @ [35]) hashes" using Nil(2)[rule_format, of "[35]"] by simp
  have b: "\<not> endswith ((acc @ [35]) @ [35]) hashes"
    using Nil(2)[rule_format, of "[35, 35]"] by simp
  have c: "endswith (((acc @ [35]) @ [35]) @ [35]) hashes"
    by (simp add: hashes_def endswith_def suffix_def)
  have "decode_chars (concat (map format_08b hashes) @ rest) acc =
        decode_chars (format_08b 35 @ format_08b 35 @ format_08b 35 @ rest) acc"
    by (simp add: hashes_def)
  also have "\<dots> = decode_chars (format_08b 35 @ format_08b 35 @ rest) (acc @ [35])"
    using a by (subst decode_chars_step) simp_all
  also have "\<dots> = decode_chars (format_08b 35 @ rest) ((acc @ [35]) @ [35])"
    using b by (subst decode_chars_step) simp_all
  also have "\<dots> = take (length ((acc @ [35]) @ [35]) - 2) (((acc @ [35]) @ [35]) @ [35])"
    using c by (subst decode_chars_step) simp_all
  also have "\<dots> = acc" by simp
  finally show ?case by simp
next
  case (Cons c p)
  have a: "\<not> endswith (acc @ [c]) hashes" using Cons.prems(2)[rule_format, of "[c]"] by simp
  have "\<forall>q. q \<noteq> [] \<and> prefix q (p @ [35, 35]) \<longrightarrow> \<not> endswith ((acc @ [c]) @ q) hashes"
  proof (intro allI impI)
    fix q assume "q \<noteq> [] \<and> prefix q (p @ [35, 35])"
    then show "\<not> endswith ((acc @ [c]) @ q) hashes"
      using Cons.prems(2)[rule_format, of "c # q"] by simp
  qed
  with Cons.IH[of "acc @ [c]"] Cons.prems(1)
  have "decode_chars (concat (map format_08b p) @ concat (map format_08b hashes) @ rest) (acc @ [c])
        = (acc @ [c]) @ p" by simp
  then show ?case using Cons.prems(1) a by (simp add: decode_chars_step)
qed

lemma sublist_hashes_snoc2:
  assumes "sublist hashes (p @ [35, 35])"
  shows "sublist hashes p \<or> (p \<noteq> [] \<and> last p = 35)"
proof -
  from assms obtain ps ss where e: "p @ [35, 35] = ps @ hashes @ ss"
    by (auto simp: sublist_def)
  show ?thesis
  proof (cases ss rule: rev_cases)
    case Nil
    with e have "(p @ [35]) @ [35] = ((ps @ [35]) @ [35]) @ [35]" by (simp add: hashes_def)
    then have "p = ps @ [35]" by simp
    then show ?thesis by simp
  next
    case (snoc ss1 a)
    note s1 = snoc
    show ?thesis
    proof (cases ss1 rule: rev_cases)
      case Nil
      with e s1 have "(p @ [35]) @ [35] = (ps @ [35, 35, 35]) @ [a]" by (simp add: hashes_def)
      then have "p @ [35] = (ps @ [35, 35]) @ [35]" by simp
      then have "p = ps @ [35, 35]" by simp
      then show ?thesis by simp
    next
      case (snoc ss2 b)
      with e s1 have "(p @ [35]) @ [35] = ((ps @ hashes @ ss2) @ [b]) @ [a]" by simp
      then have "p = ps @ hashes @ ss2" by simp
      then show ?thesis by (auto simp: sublist_def)
    qed
  qed
qed

lemma no_early_terminator:
  assumes "\<not> sublist hashes p" "p = [] \<or> last p \<noteq> 35"
  shows "\<forall>q. q \<noteq> [] \<and> prefix q (p @ [35, 35]) \<longrightarrow> \<not> endswith ([] @ q) hashes"
proof (intro allI impI)
  fix q assume q: "q \<noteq> [] \<and> prefix q (p @ [35, 35])"
  show "\<not> endswith ([] @ q) hashes"
  proof
    assume "endswith ([] @ q) hashes"
    then have "suffix hashes q" by (simp add: endswith_def)
    with q have "sublist hashes (p @ [35, 35])" by (auto simp: sublist_altdef)
    then show False using assms sublist_hashes_snoc2 by blast
  qed
qed

lemma decode_first_terminator:
  assumes "\<forall>c\<in>set p. 0 < c \<and> c < 256" "\<not> sublist hashes p" "p = [] \<or> last p \<noteq> 35"
  shows "decode_chars (concat (map format_08b (p @ hashes @ s)) @ rest) [] = p"
  using decode_chars_prefix[OF assms(1) no_early_terminator[OF assms(2,3)],
      of "concat (map format_08b s) @ rest"]
  by simp

lemma sublist_snoc_iff: "sublist xs (ys @ [v]) \<longleftrightarrow> sublist xs ys \<or> suffix xs (ys @ [v])"
  by (metis sublist_snoc)

lemma decode_chars_clean:
  "\<not> sublist hashes acc \<Longrightarrow>
   decode_chars bits acc = not_found \<or> \<not> sublist hashes (decode_chars bits acc)"
proof (induction bits acc rule: decode_chars.induct)
  case (1 bits chars)
  let ?v = "from_bin (take 8 bits)"
  show ?case
  proof (cases "length bits < 8 \<or> ?v = 0")
    case True
    then show ?thesis by (subst decode_chars.simps) (auto simp: Let_def)
  next
    case False
    note nf = False
    show ?thesis
    proof (cases "endswith (chars @ [?v]) hashes")
      case True
      have "decode_chars bits chars = take (length chars - 2) (chars @ [?v])"
        using nf True by (subst decode_chars.simps) (simp add: Let_def)
      also have "\<dots> = take (length chars - 2) chars" by simp
      finally have "sublist (decode_chars bits chars) chars"
        by (simp add: sublist_take)
      then show ?thesis using 1(2) sublist_order.order.trans by blast
    next
      case False
      then have "\<not> sublist hashes (chars @ [?v])"
        using 1(2) by (simp add: sublist_snoc_iff endswith_def)
      with 1(1)[of ?v "chars @ [?v]"] nf False
      have "decode_chars (drop 8 bits) (chars @ [?v]) = not_found \<or>
            \<not> sublist hashes (decode_chars (drop 8 bits) (chars @ [?v]))" by simp
      moreover have "decode_chars bits chars = decode_chars (drop 8 bits) (chars @ [?v])"
        using nf False by (subst decode_chars.simps) (simp add: Let_def)
      ultimately show ?thesis by simp
    qed
  qed
qed

lemma decode_chars_nul: "decode_chars (format_08b 0 @ rest) acc = not_found"
  by (subst decode_chars.simps) (simp add: length_format from_bin_format)

lemma decode_embedded:
  assumes "\<forall>c\<in>set p. 0 < c \<and> c < 256" "\<not> sublist hashes p" "p = [] \<or> last p \<noteq> 35"
    and "length (concat (map format_08b (p @ hashes @ s))) \<le> length (frames w)"
  shows "map_option decode_lsb
           (Some \<lparr>params = ps, frames = embed 0 (concat (map format_08b (p @ hashes @ s))) (frames w)\<rparr>)
         = Some p"
  using decode_first_terminator[OF assms(1-3)] lsb_embed[OF assms(4)]
  by (simp add: decode_lsb_eq)

lemma format_08b_35: "format_08b 35 = [False, False, True, False, False, False, True, True]"
proof -
  have b: "bin 35 = [True, False, False, False, True, True]" by (simp add: bin.simps)
  have r: "replicate 2 False = [False, False]" by (simp add: numeral_2_eq_2)
  show ?thesis by (simp add: format_08b_def b r)
qed

lemma encode_bits_empty:
  "encode_bits [] = [False, False, True, False, False, False, True, True,
     False, False, True, False, False, False, True, True,
     False, False, True, False, False, False, True, True]"
  by (simp add: encode_bits_def hashes_def format_08b_35)

section \<open>Properties of the echo encoder\<close>

lemma encode_echo_eq:
  "encode_echo_simple ops w m d0 d1 alpha =
     (if length (encode_bits m) * chunk_size + max d0 d1 > length (frames w) then None
      else Some \<lparr>params = params w,
             frames = map (to_int16 \<circ> clip)
               (echo_loop ops (map int16_val (frames w)) d0 d1 alpha 0 (encode_bits m)
                  (map int16_val (frames w)))\<rparr>)"
  by (simp add: encode_echo_simple_def read_wav_bytes_def write_wav_bytes_def Let_def)

lemma length_slice: "length (slice xs s e) = min (e - s) (length xs - s)"
  by (simp add: slice_def)

lemma nth_slice: "k < e - s \<Longrightarrow> s + k < length xs \<Longrightarrow> slice xs s e ! k = xs ! (s + k)"
  by (simp add: slice_def)

lemma length_iadd_slice:
  "s \<le> e \<Longrightarrow> e \<le> length out \<Longrightarrow> length v = e - s \<Longrightarrow>
   length (iadd_slice ops out s e v) = length out"
  by (simp add: iadd_slice_def length_slice)

lemma nth_iadd_slice:
  assumes "s \<le> e" "e \<le> length out" "length v = e - s" "j < length out"
  shows "iadd_slice ops out s e v ! j =
         (if s \<le> j \<and> j < e then fadd ops (out ! j) (v ! (j - s)) else out ! j)"
proof -
  consider "j < s" | "s \<le> j" "j < e" | "e \<le> j" by linarith
  then show ?thesis
  proof cases
    case 1
    then show ?thesis using assms by (simp add: iadd_slice_def nth_append)
  next
    case 2
    then have k: "j - s < e - s" "s + (j - s) = j" by linarith+
    have "map2 (fadd ops) (slice out s e) v ! (j - s) = fadd ops (out ! j) (v ! (j - s))"
      using k assms by (simp add: length_slice nth_slice)
    then show ?thesis using 2 k assms
      by (simp add: iadd_slice_def nth_append length_slice)
  next
    case 3
    then have k: "\<not> j < s" "\<not> j - s < e - s" "j - s - (e - s) = j - e" "e + (j - e) = j"
      using assms(1) by linarith+
    have "drop e out ! (j - e) = out ! j" using k assms by simp
    then show ?thesis using 3 k assms
      by (simp add: iadd_slice_def nth_append length_slice)
  qed
qed

lemma echo_loop_nth:
  assumes "(i + length bits) * chunk_size + max d0 d1 \<le> length samples"
    and "length out = length samples" and "j < length samples"
  shows "length (echo_loop ops samples d0 d1 alpha i bits out) = length samples \<and>
         echo_loop ops samples d0 d1 alpha i bits out ! j =
           foldl (echo_step ops samples d0 d1 alpha j) (out ! j) (enumerate i bits)"
  using assms
proof (induction bits arbitrary: i out)
  case Nil
  then show ?case by (simp add: echo_loop.simps)
next
  case (Cons b bits)
  let ?d = "if b then d1 else d0"
  let ?start = "i * chunk_size"
  let ?chunk = "slice samples ?start (?start + chunk_size)"
  let ?out' = "iadd_slice ops out (?start + ?d) (?start + ?d + chunk_size) (map (fmul ops alpha) ?chunk)"
  have fit: "?start + chunk_size + max d0 d1 \<le> length samples"
  proof -
    have "(i + length (b # bits)) * chunk_size =
        i * chunk_size + chunk_size + length bits * chunk_size"
      by (simp add: algebra_simps)
    then show ?thesis using Cons.prems(1) by linarith
  qed
  have "int ?start + int chunk_size \<le> int (length samples) - int (max d0 d1)"
    using fit by linarith
  then have stop: "min (int ?start + int chunk_size) (int (length samples) - int (max d0 d1))
      = int ?start + int chunk_size"
    by (rule min_absorb1)
  have nt: "nat (int ?start + int chunk_size) = ?start + chunk_size"
    by (simp only: nat_int flip: of_nat_add)
  have cs: "0 < chunk_size" by (simp add: chunk_size_def)
  have lc: "length ?chunk = chunk_size" using fit by (simp add: length_slice)
  have dle: "?d \<le> max d0 d1" by simp
  have inr: "?start + ?d + chunk_size \<le> length out" using fit dle Cons.prems(2) by linarith
  have step: "echo_loop ops samples d0 d1 alpha i (b # bits) out =
      echo_loop ops samples d0 d1 alpha (Suc i) bits ?out'"
    using cs lc inr by (simp add: echo_loop.simps stop nt Let_def del: of_nat_add of_nat_mult)
  have lo: "length ?out' = length samples"
    using inr lc Cons.prems(2) by (simp add: length_iadd_slice)
  have "(Suc i + length bits) * chunk_size + max d0 d1 \<le> length samples"
    using Cons.prems(1) by simp
  from Cons.IH[OF this lo Cons.prems(3)]
  have ih: "length (echo_loop ops samples d0 d1 alpha (Suc i) bits ?out') = length samples"
    "echo_loop ops samples d0 d1 alpha (Suc i) bits ?out' ! j =
       foldl (echo_step ops samples d0 d1 alpha j) (?out' ! j) (enumerate (Suc i) bits)"
    by simp_all
  have o': "?out' ! j = echo_step ops samples d0 d1 alpha j (out ! j) (i, b)"
  proof -
    have "?out' ! j = (if ?start + ?d \<le> j \<and> j < ?start + ?d + chunk_size
        then fadd ops (out ! j) (map (fmul ops alpha) ?chunk ! (j - (?start + ?d))) else out ! j)"
      using inr lc Cons.prems(2,3) by (subst nth_iadd_slice) simp_all
    moreover have "map (fmul ops alpha) ?chunk ! (j - (?start + ?d)) = fmul ops alpha (samples ! (j - ?d))"
      if "?start + ?d \<le> j" "j < ?start + ?d + chunk_size"
    proof -
      from that have k: "j - (?start + ?d) < chunk_size" "?start + (j - (?start + ?d)) = j - ?d"
        by linarith+
      then show ?thesis using lc fit Cons.prems(3) by (simp add: nth_slice)
    qed
    ultimately show ?thesis by (simp add: echo_step_def Let_def)
  qed
  show ?case using ih o' step by simp
qed

lemma foldl_echo_step_outside:
  assumes "\<forall>(i, b)\<in>set xs. \<not> (i * chunk_size + (if b then d1 else d0) \<le> j \<and>
             j < i * chunk_size + (if b then d1 else d0) + chunk_size)"
  shows "foldl (echo_step ops samples d0 d1 alpha j) a xs = a"
  using assms by (induction xs arbitrary: a) (auto simp: echo_step_def Let_def)

lemma echo_at_beyond:
  assumes "length bits * chunk_size + max d0 d1 \<le> j"
  shows "echo_at ops samples d0 d1 alpha bits j = samples ! j"
  unfolding echo_at_def
proof (rule foldl_echo_step_outside, clarify)
  fix i b assume m: "(i, b) \<in> set (enumerate 0 bits)"
    and w: "i * chunk_size + (if b then d1 else d0) \<le> j"
           "j < i * chunk_size + (if b then d1 else d0) + chunk_size"
  from m have "i < length bits" by (auto simp: in_set_enumerate_eq)
  then have "Suc i \<le> length bits" by simp
  then have "Suc i * chunk_size \<le> length bits * chunk_size" by (rule mult_le_mono1)
  moreover have "(if b then d1 else d0) \<le> max d0 d1" by simp
  ultimately show False using w assms by simp
qed

lemma echo_at_before:
  assumes "j < min d0 d1"
  shows "echo_at ops samples d0 d1 alpha bits j = samples ! j"
  unfolding echo_at_def
  by (rule foldl_echo_step_outside) (use assms in \<open>auto\<close>)

lemma sint_to_int16_clip: "sint (to_int16 (clip x)) = trunc (clip x)"
proof -
  have "- 32768 \<le> trunc (clip x) \<and> trunc (clip x) \<le> 32767"
    unfolding trunc_def clip_def by (auto simp: le_floor_iff ceiling_le_iff floor_le_iff le_ceiling_iff) 
  then show ?thesis unfolding to_int16_def
    by (simp add: sint_sbintrunc' signed_take_bit_int_eq_self)
qed

lemma echo_fit:
  assumes "n * chunk_size + md \<le> len" "i < n"
  shows "i * chunk_size + chunk_size + md \<le> len"
proof -
  from assms(2) have "Suc i \<le> n" by simp
  then have "Suc i * chunk_size \<le> n * chunk_size" by (rule mult_le_mono1)
  then show ?thesis using assms(1) by simp
qed

lemma length_format_ge: "8 \<le> length (format_08b n)"
  by (simp add: format_08b_def)

lemma encode_bits_nonempty: "0 < length (encode_bits m)"
proof -
  have "format_08b 35 \<noteq> []" using length_format_ge[of 35] by auto
  then show ?thesis by (simp add: encode_bits_def hashes_def)
qed

lemma encode_echo_frames:
  assumes "length (encode_bits m) * chunk_size + max d0 d1 \<le> length (frames w)"
  shows "\<exists>stego. encode_echo_simple ops w m d0 d1 alpha = Some stego \<and>
           params stego = params w \<and> length (frames stego) = length (frames w) \<and>
           (\<forall>j < length (frames w). frames stego ! j =
              to_int16 (clip (echo_at ops (map int16_val (frames w)) d0 d1 alpha (encode_bits m) j)))"
proof -
  let ?s = "map int16_val (frames w)"
  let ?out = "echo_loop ops ?s d0 d1 alpha 0 (encode_bits m) ?s"
  have "0 < length (encode_bits m) * chunk_size"
    using encode_bits_nonempty[of m] by (simp add: chunk_size_def)
  then have pos: "0 < length (frames w)" using assms by linarith
  have n: "\<And>j. j < length (frames w) \<Longrightarrow>
       ?out ! j = echo_at ops ?s d0 d1 alpha (encode_bits m) j"
    using echo_loop_nth[of 0 "encode_bits m" d0 d1 ?s ?s _ ops alpha] assms
    by (simp add: echo_at_def)
  have l: "length ?out = length (frames w)"
    using echo_loop_nth[of 0 "encode_bits m" d0 d1 ?s ?s 0 ops alpha] assms pos
    by simp
  show ?thesis using assms l n by (simp add: encode_echo_eq)
qed

lemma echo_at_constant:
  assumes "196608 < n"
  shows "echo_at exact_ops (replicate n x) 200 400 (1 / 2) (encode_bits []) 196608 = x + x / 2"
  using assms
  by (simp add: echo_at_def echo_step_def encode_bits_empty exact_ops_def chunk_size_def
      enumerate_eq_zip upt_rec[of _ "numeral k" for k] Let_def)

section \<open>Properties of the echo decoder\<close>

lemma corr_slices:
  assumes o: "start + chunk_size + md \<le> length original"
    and s: "start + chunk_size + md \<le> length stego" and d: "d \<le> md"
  shows "\<bar>fsum ops (map2 (fmul ops) (slice original start (start + chunk_size))
           (slice (map2 (fsub ops) (slice stego start (start + chunk_size + md))
                                   (slice original start (start + chunk_size + md)))
              d (d + length (slice original start (start + chunk_size)))))\<bar>
         = \<bar>fsum ops (map (\<lambda>k. fmul ops (original ! (start + k))
                           (fsub ops (stego ! (start + d + k)) (original ! (start + d + k))))
                  [0..<chunk_size])\<bar>"
proof -
  let ?oc = "slice original start (start + chunk_size)"
  let ?echo = "map2 (fsub ops) (slice stego start (start + chunk_size + md))
                                (slice original start (start + chunk_size + md))"
  let ?ed = "slice ?echo d (d + length ?oc)"
  have loc: "length ?oc = chunk_size" using o by (simp add: length_slice)
  have le: "length ?echo = chunk_size + md" using o s by (simp add: length_slice)
  have "length ?ed = min (d + length ?oc - d) (length ?echo - d)" by (rule length_slice)
  then have led: "length ?ed = chunk_size" unfolding le loc using d by simp
  then have led': "length (slice ?echo d (d + chunk_size)) = chunk_size" unfolding loc .
  have "map2 (fmul ops) ?oc ?ed =
        map (\<lambda>k. fmul ops (original ! (start + k))
                  (fsub ops (stego ! (start + d + k)) (original ! (start + d + k)))) [0..<chunk_size]"
  proof (rule nth_equalityI)
    show "length (map2 (fmul ops) ?oc ?ed) = length (map (\<lambda>k. fmul ops (original ! (start + k))
                  (fsub ops (stego ! (start + d + k)) (original ! (start + d + k)))) [0..<chunk_size])"
      by (simp add: loc led')
  next
    fix k assume "k < length (map2 (fmul ops) ?oc ?ed)"
    then have k: "k < chunk_size" by (simp add: loc led')
    have a: "?oc ! k = original ! (start + k)" using k o by (simp add: nth_slice)
    have dk: "d + k < chunk_size + md" using k d by linarith
    have "?ed ! k = ?echo ! (d + k)"
      unfolding loc
    proof (rule nth_slice)
      show "k < d + chunk_size - d" using k by simp
      show "d + k < length ?echo" unfolding le using dk .
    qed
    also have "\<dots> = fsub ops (slice stego start (start + chunk_size + md) ! (d + k))
                          (slice original start (start + chunk_size + md) ! (d + k))"
      using dk o s by (simp add: length_slice)
    also have "\<dots> = fsub ops (stego ! (start + d + k)) (original ! (start + d + k))"
      using dk o s by (simp add: nth_slice add.assoc)
    finally have b: "?ed ! k = fsub ops (stego ! (start + d + k)) (original ! (start + d + k))" .
    show "map2 (fmul ops) ?oc ?ed ! k = map (\<lambda>k. fmul ops (original ! (start + k))
                  (fsub ops (stego ! (start + d + k)) (original ! (start + d + k)))) [0..<chunk_size] ! k"
      using k a b[unfolded loc] by (simp add: loc led')
  qed
  then show ?thesis by simp
qed

lemma echo_decode_loop_spec:
  assumes fit: "nat num_chunks * chunk_size + max d0 d1 \<le> min (length original) (length stego)"
    and i: "i \<le> nat num_chunks"
  shows "echo_decode_loop ops original stego d0 d1 num_chunks i bits dbg =
     (bits @ map (\<lambda>k. corr_at ops original stego d1 k > corr_at ops original stego d0 k)
               [i..<nat num_chunks],
      dbg @ map (\<lambda>k. (k, corr_at ops original stego d0 k, corr_at ops original stego d1 k,
                        corr_at ops original stego d1 k > corr_at ops original stego d0 k))
               [i..<nat num_chunks])"
  using i
proof (induction "nat num_chunks - i" arbitrary: i bits dbg)
  case 0
  then have "\<not> int i < num_chunks" by linarith
  moreover have "[i..<nat num_chunks] = []" using 0 by simp
  ultimately show ?case by (subst echo_decode_loop.simps) simp
next
  case (Suc m)
  then have lt: "i < nat num_chunks" and c: "int i < num_chunks" by linarith+
  let ?start = "i * chunk_size"
  have f: "?start + chunk_size + max d0 d1 \<le> min (length original) (length stego)"
    using echo_fit[OF fit lt] .
  then have fo: "?start + chunk_size + max d0 d1 \<le> length original"
    and fs: "?start + chunk_size + max d0 d1 \<le> length stego" by simp_all
  have nb: "\<not> ?start + chunk_size + max d0 d1 > min (length original) (length stego)"
    using f by linarith
  have c0: "\<bar>fsum ops (map2 (fmul ops) (slice original ?start (?start + chunk_size))
           (slice (map2 (fsub ops) (slice stego ?start (?start + chunk_size + max d0 d1))
                                   (slice original ?start (?start + chunk_size + max d0 d1)))
              d0 (d0 + length (slice original ?start (?start + chunk_size)))))\<bar>
        = corr_at ops original stego d0 i"
    unfolding corr_at_def by (rule corr_slices[OF fo fs]) simp
  have c1: "\<bar>fsum ops (map2 (fmul ops) (slice original ?start (?start + chunk_size))
           (slice (map2 (fsub ops) (slice stego ?start (?start + chunk_size + max d0 d1))
                                   (slice original ?start (?start + chunk_size + max d0 d1)))
              d1 (d1 + length (slice original ?start (?start + chunk_size)))))\<bar>
        = corr_at ops original stego d1 i"
    unfolding corr_at_def by (rule corr_slices[OF fo fs]) simp
  let ?b = "corr_at ops original stego d1 i > corr_at ops original stego d0 i"
  have step: "echo_decode_loop ops original stego d0 d1 num_chunks i bits dbg =
      echo_decode_loop ops original stego d0 d1 num_chunks (Suc i) (bits @ [?b])
        (dbg @ [(i, corr_at ops original stego d0 i, corr_at ops original stego d1 i, ?b)])"
    apply (subst echo_decode_loop.simps)
    apply (simp only: c if_True Let_def nb if_False c0 c1)
    done
  have "m = nat num_chunks - Suc i" using Suc(2) by simp
  moreover have "Suc i \<le> nat num_chunks" using lt by simp
  ultimately have ih: "echo_decode_loop ops original stego d0 d1 num_chunks (Suc i) (bits @ [?b])
        (dbg @ [(i, corr_at ops original stego d0 i, corr_at ops original stego d1 i, ?b)]) =
     ((bits @ [?b]) @ map (\<lambda>k. corr_at ops original stego d1 k > corr_at ops original stego d0 k)
               [Suc i..<nat num_chunks],
      (dbg @ [(i, corr_at ops original stego d0 i, corr_at ops original stego d1 i, ?b)]) @
        map (\<lambda>k. (k, corr_at ops original stego d0 k, corr_at ops original stego d1 k,
                        corr_at ops original stego d1 k > corr_at ops original stego d0 k))
               [Suc i..<nat num_chunks])"
    by (rule Suc(1))
  have u: "[i..<nat num_chunks] = i # [Suc i..<nat num_chunks]" using lt by (rule upt_conv_Cons)
  show ?case unfolding step ih u by simp
qed

lemma num_chunks_fit:
  assumes "0 < num_chunks_spec lo ls d0 d1"
  shows "nat (num_chunks_spec lo ls d0 d1) * chunk_size + max d0 d1 \<le> min lo ls"
proof -
  let ?a = "int (min lo ls) - int (max d0 d1)"
  have cs: "0 < int chunk_size" by (simp add: chunk_size_def)
  have "(?a div int chunk_size) * int chunk_size \<le> ?a"
    using div_mult_mod_eq[of ?a "int chunk_size"] pos_mod_sign[OF cs, of ?a] by linarith
  moreover have "int (nat (num_chunks_spec lo ls d0 d1) * chunk_size) =
      (?a div int chunk_size) * int chunk_size"
    using assms by (simp add: num_chunks_spec_def)
  ultimately show ?thesis by linarith
qed

lemma echo_detect_spec:
  "echo_detect ops original stego d0 d1 =
     (map (\<lambda>k. corr_at ops original stego d1 k > corr_at ops original stego d0 k)
        [0..<nat (num_chunks_spec (length original) (length stego) d0 d1)],
      map (\<lambda>k. (k, corr_at ops original stego d0 k, corr_at ops original stego d1 k,
                 corr_at ops original stego d1 k > corr_at ops original stego d0 k))
        [0..<nat (num_chunks_spec (length original) (length stego) d0 d1)])"
proof (cases "0 < num_chunks_spec (length original) (length stego) d0 d1")
  case True
  from echo_decode_loop_spec[OF num_chunks_fit[OF True], of 0 ops "[]" "[]"]
  show ?thesis by (simp add: echo_detect_def num_chunks_spec_def Let_def)
next
  case False
  then show ?thesis
    by (simp add: echo_detect_def Let_def num_chunks_spec_def[symmetric] echo_decode_loop.simps)
qed

lemma decode_echo_eq:
  "decode_echo_simple ops ob sb d0 d1 =
     (let (bits, debug_info) =
            echo_detect ops (map int16_val (frames ob)) (map int16_val (frames sb)) d0 d1
      in (echo_chars bits [], debug_info, bits))"
  by (simp add: decode_echo_simple_def read_wav_bytes_def)

lemma corr_at_take:
  assumes "k * chunk_size + chunk_size + md \<le> n" "d \<le> md"
  shows "corr_at ops (take n original) (take n stego) d k = corr_at ops original stego d k"
proof -
  have "map (\<lambda>x. fmul ops (take n original ! (k * chunk_size + x))
                  (fsub ops (take n stego ! (k * chunk_size + d + x))
                            (take n original ! (k * chunk_size + d + x)))) [0..<chunk_size]
      = map (\<lambda>x. fmul ops (original ! (k * chunk_size + x))
                  (fsub ops (stego ! (k * chunk_size + d + x))
                            (original ! (k * chunk_size + d + x)))) [0..<chunk_size]"
  proof (rule map_cong[OF refl])
    fix x assume "x \<in> set [0..<chunk_size]"
    then have x: "x < chunk_size" by simp
    then have "k * chunk_size + x < n" "k * chunk_size + d + x < n" using assms by linarith+
    then show "fmul ops (take n original ! (k * chunk_size + x))
                  (fsub ops (take n stego ! (k * chunk_size + d + x))
                            (take n original ! (k * chunk_size + d + x)))
      = fmul ops (original ! (k * chunk_size + x))
                  (fsub ops (stego ! (k * chunk_size + d + x))
                            (original ! (k * chunk_size + d + x)))" by simp
  qed
  then show ?thesis unfolding corr_at_def by (simp only:)
qed

lemma echo_detect_take:
  assumes "n = min (length original) (length stego)"
  shows "echo_detect ops (take n original) (take n stego) d0 d1 =
         echo_detect ops original stego d0 d1"
proof -
  let ?nc = "num_chunks_spec (length original) (length stego) d0 d1"
  have nc: "num_chunks_spec (length (take n original)) (length (take n stego)) d0 d1 = ?nc"
    using assms by (simp add: num_chunks_spec_def)
  have c: "corr_at ops (take n original) (take n stego) d k = corr_at ops original stego d k"
    if "k < nat ?nc" "d \<le> max d0 d1" for k d
  proof -
    from that(1) have "0 < ?nc" by linarith
    from echo_fit[OF num_chunks_fit[OF this] that(1)] assms
    show ?thesis by (intro corr_at_take[OF _ that(2)]) simp
  qed
  have c0: "corr_at ops (take n original) (take n stego) d0 k = corr_at ops original stego d0 k"
    and c1: "corr_at ops (take n original) (take n stego) d1 k = corr_at ops original stego d1 k"
    if "k \<in> set [0..<nat ?nc]" for k
    using that c[of k d0] c[of k d1] by simp_all
  show ?thesis unfolding echo_detect_spec nc
    by (simp add: c0 c1 cong: map_cong)
qed

lemma corr_at_constant:
  assumes "k * chunk_size + chunk_size + d \<le> n" "k * chunk_size + chunk_size + d \<le> m"
  shows "corr_at exact_ops (replicate n a) (replicate m b) d k
         = \<bar>real chunk_size * (a * (b - a))\<bar>"
proof -
  have "map (\<lambda>x. fmul exact_ops (replicate n a ! (k * chunk_size + x))
                  (fsub exact_ops (replicate m b ! (k * chunk_size + d + x))
                            (replicate n a ! (k * chunk_size + d + x)))) [0..<chunk_size]
      = map (\<lambda>x. a * (b - a)) [0..<chunk_size]"
  proof (rule map_cong[OF refl])
    fix x assume "x \<in> set [0..<chunk_size]"
    then have x: "x < chunk_size" by simp
    then have "k * chunk_size + x < n" "k * chunk_size + d + x < n" "k * chunk_size + d + x < m"
      using assms by linarith+
    then show "fmul exact_ops (replicate n a ! (k * chunk_size + x))
                  (fsub exact_ops (replicate m b ! (k * chunk_size + d + x))
                            (replicate n a ! (k * chunk_size + d + x))) = a * (b - a)"
      by (simp add: exact_ops_def)
  qed
  then have "corr_at exact_ops (replicate n a) (replicate m b) d k
      = \<bar>sum_list (map (\<lambda>x. a * (b - a)) [0..<chunk_size])\<bar>"
    unfolding corr_at_def by (simp only: exact_ops_def float_ops.simps)
  then show ?thesis by (simp add: sum_list_triv)
qed

lemma byte_value_0: "byte_value bits 0 = from_bin (take 8 bits)"
  by (simp add: byte_value_def slice_def)

lemma byte_value_drop: "byte_value (drop 8 bits) k = byte_value bits (Suc k)"
  by (simp add: byte_value_def slice_def add.commute)

lemma echo_chars_stop:
  assumes "8 * k + 8 \<le> length bits"
    and "byte_value bits k = 0 \<or> byte_value bits k > 127"
    and "\<forall>j \<le> k. 0 < j \<longrightarrow> \<not> endswith (acc @ map (byte_value bits) [0..<j]) hashes"
  shows "echo_chars bits acc = not_found"
  using assms
proof (induction k arbitrary: bits acc)
  case 0
  then show ?case by (subst echo_chars.simps) (auto simp: byte_value_0 Let_def)
next
  case (Suc k)
  let ?v = "from_bin (take 8 bits)"
  have len: "\<not> length bits < 8" using Suc.prems(1) by simp
  show ?case
  proof (cases "?v = 0 \<or> ?v > 127")
    case True
    then show ?thesis using len by (subst echo_chars.simps) (auto simp: Let_def)
  next
    case False
    have ne: "\<not> endswith (acc @ [?v]) hashes"
      using Suc.prems(3)[rule_format, of 1] by (simp add: byte_value_0)
    have step: "echo_chars bits acc = echo_chars (drop 8 bits) (acc @ [?v])"
      using len False ne by (subst echo_chars.simps) (simp add: Let_def)
    have "echo_chars (drop 8 bits) (acc @ [?v]) = not_found"
    proof (rule Suc.IH)
      show "8 * k + 8 \<le> length (drop 8 bits)" using Suc.prems(1) by simp
      show "byte_value (drop 8 bits) k = 0 \<or> 127 < byte_value (drop 8 bits) k"
        using Suc.prems(2) by (simp add: byte_value_drop)
      show "\<forall>j\<le>k. 0 < j \<longrightarrow>
          \<not> endswith ((acc @ [?v]) @ map (byte_value (drop 8 bits)) [0..<j]) hashes"
      proof (intro allI impI)
        fix j assume j: "j \<le> k" "0 < j"
        have "map (byte_value bits) [0..<Suc j] =
              byte_value bits 0 # map (\<lambda>i. byte_value bits (Suc i)) [0..<j]"
          by (rule map_upt_Suc)
        then have "acc @ map (byte_value bits) [0..<Suc j] =
            (acc @ [?v]) @ map (byte_value (drop 8 bits)) [0..<j]"
          by (simp add: byte_value_0 byte_value_drop)
        then show "\<not> endswith ((acc @ [?v]) @ map (byte_value (drop 8 bits)) [0..<j]) hashes"
          using Suc.prems(3)[rule_format, of "Suc j"] j by simp
      qed
    qed
    then show ?thesis using step by simp
  qed
qed

lemma echo_detect_silence:
  "echo_detect exact_ops (map int16_val (frames (silence 66000)))
     (map int16_val (frames (silence 66000))) 200 400 =
   (replicate 8 False, map (\<lambda>k. (k, 0, 0, False)) [0..<8])"
proof -
  let ?z = "map int16_val (frames (silence 66000))"
  have z: "?z = replicate 66000 0"
    by (simp add: silence_def constant_wav_def int16_val_def)
  have n: "nat (num_chunks_spec (length ?z) (length ?z) 200 400) = 8"
    by (simp add: z num_chunks_spec_def chunk_size_def)
  have c: "corr_at exact_ops ?z ?z d k = 0" if "k \<in> set [0..<8]" "d \<le> 400" for k d
  proof -
    from that have "k * chunk_size + chunk_size + d \<le> 66000"
      by (simp add: chunk_size_def)
    from corr_at_constant[OF this this, of 0 0] show ?thesis by (simp add: z)
  qed
  have "map (\<lambda>k. corr_at exact_ops ?z ?z 400 k > corr_at exact_ops ?z ?z 200 k) [0..<8] =
        map (\<lambda>k. False) [0..<8]"
    by (rule map_cong[OF refl]) (simp add: c)
  moreover have "map (\<lambda>k. (k, corr_at exact_ops ?z ?z 200 k, corr_at exact_ops ?z ?z 400 k,
            corr_at exact_ops ?z ?z 400 k > corr_at exact_ops ?z ?z 200 k)) [0..<8] =
        map (\<lambda>k. (k, 0, 0, False)) [0..<8]"
    by (rule map_cong[OF refl]) (simp add: c)
  moreover have "map (\<lambda>k::nat. False) [0..<8] = replicate 8 False"
    by (simp add: map_replicate_const)
  ultimately show ?thesis unfolding echo_detect_spec n by (simp only:)
qed

section \<open>The first terminator of a message\<close>

lemma first_terminator:
  "sublist hashes m \<Longrightarrow> \<exists>p s. m = p @ hashes @ s \<and> \<not> sublist hashes (p @ [35, 35])"
proof (induction m)
  case Nil
  then show ?case by (simp add: hashes_def)
next
  case (Cons x xs)
  show ?case
  proof (cases "prefix hashes (x # xs)")
    case True
    then obtain s where "x # xs = [] @ hashes @ s" by (auto simp: prefix_def)
    moreover have "\<not> sublist hashes ([] @ [35, 35])" by (simp add: hashes_def sublist_code)
    ultimately show ?thesis by blast
  next
    case False
    with Cons.prems have "sublist hashes xs" by (auto simp: hashes_def sublist_code)
    from Cons.IH[OF this] obtain p s where
      ps: "xs = p @ hashes @ s" "\<not> sublist hashes (p @ [35, 35])" by blast
    have "\<not> prefix hashes (x # p @ [35, 35])"
    proof
      assume "prefix hashes (x # p @ [35, 35])"
      moreover have "prefix (x # p @ [35, 35]) (x # xs)"
        by (simp add: ps(1) hashes_def)
      ultimately show False using False prefix_order.trans by blast
    qed
    with ps(2) have "\<not> sublist hashes ((x # p) @ [35, 35])"
      by (simp add: hashes_def sublist_code)
    moreover have "x # xs = (x # p) @ hashes @ s" by (simp add: ps(1))
    ultimately show ?thesis by blast
  qed
qed

lemma decode_first_terminator2:
  assumes "\<forall>c\<in>set p. 0 < c \<and> c < 256" "\<not> sublist hashes (p @ [35, 35])"
  shows "decode_chars (concat (map format_08b (p @ hashes @ s)) @ rest) [] = p"
proof -
  have "\<forall>q. q \<noteq> [] \<and> prefix q (p @ [35, 35]) \<longrightarrow> \<not> endswith ([] @ q) hashes"
    using assms(2) by (auto simp: sublist_altdef endswith_def)
  from decode_chars_prefix[OF assms(1) this, of "concat (map format_08b s) @ rest"]
  show ?thesis by simp
qed

lemma format_08b_65: "format_08b 65 = [False, True, False, False, False, False, False, True]"
proof -
  have b: "bin 65 = [True, False, False, False, False, False, True]" by (simp add: bin.simps)
  show ?thesis by (simp add: format_08b_def b)
qed

lemma encode_bits_A:
  "encode_bits [65] = [False, True, False, False, False, False, False, True,
     False, False, True, False, False, False, True, True,
     False, False, True, False, False, False, True, True,
     False, False, True, False, False, False, True, True]"
  by (simp add: encode_bits_def hashes_def format_08b_35 format_08b_65)

lemma echo_at_constant_A:
  assumes "262144 < n"
  shows "echo_at exact_ops (replicate n x) 200 400 (1 / 2) (encode_bits [65]) 262144 = x + x / 2"
  using assms
  by (simp add: echo_at_def echo_step_def encode_bits_A exact_ops_def chunk_size_def
      enumerate_eq_zip upt_rec[of _ "numeral k" for k] Let_def)

section \<open>Properties of the echo round trip\<close>



















section \<open>LSB capacity\<close>

text \<open>
  C4. With a message of single-byte characters (the message type of the data model), the
  framed bit length is \<open>8 * (len(message) + 3)\<close>. \<open>encode_lsb\<close> returns a stego
  buffer whenever that length is at most the number of samples, equality included, and
  returns \<open>None\<close>, the Capacity Exceeded result, whenever it is larger, from one bit
  more on. The model has no other outcome: no exception is raised.
\<close>

theorem lsb_capacity_boundary:
  assumes "\<forall>c\<in>set message. c < 256"
  shows "length (encode_bits message) = 8 * (length message + 3) \<and>
         (8 * (length message + 3) \<le> length (frames w) \<longrightarrow>
           (\<exists>stego. encode_lsb w message = Some stego)) \<and>
         (8 * (length message + 3) > length (frames w) \<longrightarrow> encode_lsb w message = None)"
  using length_encode_bits[OF assms] by (simp add: encode_lsb_eq)

theorem lsb_capacity_boundary_witness:
  "set [72, 73] \<subseteq> {c. c < (256::nat)} \<and>
   8 * (length [72, 73 :: nat] + 3) \<le> length (frames (silence 40)) \<and>
   (\<exists>stego. encode_lsb (silence 40) [72, 73] = Some stego) \<and>
   8 * (length [72, 73 :: nat] + 3) > length (frames (silence 39)) \<and>
   encode_lsb (silence 39) [72, 73] = None"
  using lsb_capacity_boundary[of "[72, 73]" "silence 40"]
    lsb_capacity_boundary[of "[72, 73]" "silence 39"]
  by (simp add: silence_def constant_wav_def)

section \<open>LSB round trip\<close>

text \<open>
  C1, as amended. For an ASCII message without the NUL character that does not contain
  \<open>"###"\<close> and does not end with \<open>'#'\<close>, and a buffer of at least
  \<open>8 * (len(m) + 3)\<close> samples, \<open>encode_lsb\<close> succeeds and \<open>decode_lsb\<close> of its
  result is the message.
\<close>

theorem lsb_round_trip:
  assumes "\<forall>c\<in>set m. 0 < c \<and> c < 128" "\<not> sublist hashes m" "m = [] \<or> last m \<noteq> 35"
    and "8 * (length m + 3) \<le> length (frames w)"
  shows "\<exists>stego. encode_lsb w m = Some stego \<and> decode_lsb stego = m"
proof -
  have b: "\<forall>c\<in>set m. 0 < c \<and> c < 256" using assms(1) by auto
  then have l: "length (encode_bits m) = 8 * (length m + 3)"
    by (simp add: length_encode_bits)
  have e: "encode_bits m = concat (map format_08b (m @ hashes @ []))"
    by (simp add: encode_bits_def)
  have "map_option decode_lsb (encode_lsb w m) = Some m"
    using decode_embedded[OF b assms(2,3), of "[]" w "params w"] l assms(4)
    by (simp add: encode_lsb_eq e)
  then show ?thesis by auto
qed

theorem lsb_round_trip_witness:
  "set [72, 73] \<subseteq> {c. 0 < c \<and> c < (128::nat)} \<and> \<not> sublist hashes [72, 73] \<and>
   last [72, 73] \<noteq> (35::nat) \<and>
   8 * (length [72, 73 :: nat] + 3) \<le> length (frames (silence 16000)) \<and>
   (\<exists>stego. encode_lsb (silence 16000) [72, 73] = Some stego \<and> decode_lsb stego = [72, 73])"
proof -
  have h: "\<forall>c\<in>set [72, 73]. 0 < c \<and> c < (128::nat)" "\<not> sublist hashes [72, 73]"
    "[72, 73] = [] \<or> last [72, 73] \<noteq> (35::nat)"
    "8 * (length [72, 73 :: nat] + 3) \<le> length (frames (silence 16000))"
    by (simp_all add: hashes_def sublist_code silence_def constant_wav_def)
  show ?thesis using h lsb_round_trip[OF h] by blast
qed

text \<open>
  Without the two restrictions the round trip fails. The one-character message
  \<open>"#"\<close> is framed as \<open>"####"\<close>, whose first three characters already end the
  decoding with the empty string; and a NUL character stops the decoding at the zero
  byte with the not-found outcome.
\<close>

theorem lsb_round_trip_counterexample:
  "map_option decode_lsb (encode_lsb (silence 32) [35]) = Some [] \<and>
   map_option decode_lsb (encode_lsb (silence 32) [0]) = Some not_found \<and>
   not_found \<noteq> [0]"
proof -
  have l: "length (encode_bits [c]) = 32" if "c < 256" for c
    using that length_encode_bits[of "[c]"] by simp
  have e: "encode_bits [35] = concat (map format_08b ([] @ hashes @ [35]))"
    by (simp add: encode_bits_def hashes_def)
  have "map_option decode_lsb
          (Some \<lparr>params = pcm_params 32,
             frames = embed 0 (concat (map format_08b ([] @ hashes @ [35]))) (frames (silence 32))\<rparr>)
        = Some []"
  proof (rule decode_embedded)
    show "\<not> sublist hashes []" by (simp add: hashes_def)
    show "length (concat (map format_08b ([] @ hashes @ [35]))) \<le> length (frames (silence 32))"
      using l[of 35] unfolding e by (simp add: silence_def constant_wav_def)
  qed simp_all
  moreover have "encode_lsb (silence 32) [35] =
      Some \<lparr>params = pcm_params 32, frames = embed 0 (encode_bits [35]) (frames (silence 32))\<rparr>"
    using l[of 35] by (simp add: encode_lsb_eq silence_def constant_wav_def)
  ultimately have a: "map_option decode_lsb (encode_lsb (silence 32) [35]) = Some []"
    unfolding e by simp
  have "encode_bits [0] = format_08b 0 @ concat (map format_08b hashes)"
    by (simp add: encode_bits_def)
  then have b: "map_option decode_lsb (encode_lsb (silence 32) [0]) = Some not_found"
    using l[of 0] lsb_embed[of "encode_bits [0]" "frames (silence 32)"]
    by (simp add: encode_lsb_eq decode_lsb_eq decode_chars_nul silence_def constant_wav_def)
  have "not_found \<noteq> [0]" by (simp add: not_found_def str_def)
  with a b show ?thesis by simp
qed

section \<open>The terminator inside a message\<close>

text \<open>
  C2, as amended. Detection is first occurrence: for every message \<open>m\<close> of single-byte
  characters other than NUL that contains \<open>"###"\<close> and whose framed bits fit the
  buffer, \<open>encode_lsb\<close> succeeds and \<open>decode_lsb\<close> of its result returns the text
  \<open>p\<close> before the first \<open>"###"\<close> of \<open>m\<close>, not \<open>m\<close>: \<open>m = p + "###" + s\<close> with no
  \<open>"###"\<close> ending earlier.
\<close>

theorem lsb_first_terminator:
  assumes "sublist hashes m" "\<forall>c\<in>set m. 0 < c \<and> c < 256"
    and "length (encode_bits m) \<le> length (frames w)"
  shows "\<exists>stego p s. encode_lsb w m = Some stego \<and> m = p @ hashes @ s \<and>
           \<not> sublist hashes (p @ [35, 35]) \<and> decode_lsb stego = p"
proof -
  from first_terminator[OF assms(1)] obtain p s where
    ps: "m = p @ hashes @ s" "\<not> sublist hashes (p @ [35, 35])" by blast
  have c: "\<forall>c\<in>set p. 0 < c \<and> c < 256" using assms(2) ps(1) by auto
  have e: "encode_bits m = concat (map format_08b (p @ hashes @ (s @ hashes)))"
    by (simp add: encode_bits_def ps(1))
  have "decode_chars (map (\<lambda>s. s AND 1 = 1) (embed 0 (encode_bits m) (frames w))) [] = p"
    using decode_first_terminator2[OF c ps(2)] lsb_embed[OF assms(3)] unfolding e by simp
  then have "decode_lsb \<lparr>params = params w, frames = embed 0 (encode_bits m) (frames w)\<rparr> = p"
    by (simp add: decode_lsb_eq)
  then show ?thesis using assms(3) ps by (auto simp: encode_lsb_eq)
qed

theorem lsb_first_terminator_witness:
  "sublist hashes [97, 35, 35, 35, 98] \<and>
   set [97, 35, 35, 35, 98] \<subseteq> {c. 0 < c \<and> c < (256::nat)} \<and>
   length (encode_bits [97, 35, 35, 35, 98]) \<le> length (frames (silence 64)) \<and>
   (\<exists>stego p s. encode_lsb (silence 64) [97, 35, 35, 35, 98] = Some stego \<and>
      [97, 35, 35, 35, 98] = p @ hashes @ s \<and>
      \<not> sublist hashes (p @ [35, 35]) \<and> decode_lsb stego = p)"
proof -
  have h: "sublist hashes [97, 35, 35, 35, 98]"
    "\<forall>c\<in>set [97, 35, 35, 35, 98]. 0 < c \<and> c < (256::nat)"
    by (simp_all add: hashes_def sublist_code)
  have l: "length (encode_bits [97, 35, 35, 35, 98]) \<le> length (frames (silence 64))"
    using length_encode_bits[of "[97, 35, 35, 35, 98]"]
    by (simp add: silence_def constant_wav_def)
  show ?thesis using h l lsb_first_terminator[OF h l] by auto
qed

text \<open>
  The literal message is therefore not recovered: \<open>"a###b"\<close> in 64 silent samples
  decodes to \<open>"a"\<close>.
\<close>

theorem lsb_first_terminator_counterexample:
  "map_option decode_lsb (encode_lsb (silence 64) (str ''a###b'')) = Some (str ''a'')"
proof -
  have m: "str ''a###b'' = [97] @ hashes @ ([98])" by (simp add: str_def hashes_def)
  have e: "encode_bits ([97] @ hashes @ [98]) = concat (map format_08b ([97] @ hashes @ ([98] @ hashes)))"
    by (simp add: encode_bits_def)
  have l: "length (encode_bits ([97] @ hashes @ [98])) = 64"
    using length_encode_bits[of "[97] @ hashes @ [98]"] by (simp add: hashes_def)
  have "map_option decode_lsb
          (Some \<lparr>params = pcm_params 64,
             frames = embed 0 (concat (map format_08b ([97] @ hashes @ ([98] @ hashes))))
               (frames (silence 64))\<rparr>)
        = Some [97]"
  proof (rule decode_embedded)
    show "\<not> sublist hashes [97]" by (simp add: hashes_def sublist_code)
    show "length (concat (map format_08b ([97] @ hashes @ [98] @ hashes))) \<le> length (frames (silence 64))"
      using l unfolding e by (simp add: silence_def constant_wav_def)
  qed simp_all
  moreover have "encode_lsb (silence 64) ([97] @ hashes @ [98]) =
      Some \<lparr>params = pcm_params 64,
        frames = embed 0 (encode_bits ([97] @ hashes @ [98])) (frames (silence 64))\<rparr>"
    using l by (simp add: encode_lsb_eq silence_def constant_wav_def)
  ultimately show ?thesis unfolding m e by (simp add: str_def)
qed

section \<open>LSB frame effect\<close>

text \<open>
  C6. When \<open>encode_lsb\<close> accepts buffer and message, the returned buffer has the
  input's format parameters and as many samples; each sample at an index below the
  framed bit length keeps its upper 15 bits (the 16-bit pattern shifted right by one)
  and has the message bit of that index as its least-significant bit; each sample at
  an index at or beyond the framed bit length is the input sample.
\<close>

theorem lsb_frame_effect:
  assumes "encode_lsb w message = Some stego"
  shows "params stego = params w \<and> length (frames stego) = length (frames w) \<and>
    (\<forall>i < length (frames w).
       if i < length (encode_bits message)
       then drop_bit 1 (frames stego ! i) = drop_bit 1 (frames w ! i) \<and>
            bit (frames stego ! i) 0 = encode_bits message ! i
       else frames stego ! i = frames w ! i)"
proof -
  let ?bits = "encode_bits message"
  from assms have le: "length ?bits \<le> length (frames w)"
    and st: "stego = \<lparr>params = params w, frames = embed 0 ?bits (frames w)\<rparr>"
    by (auto simp: encode_lsb_eq split: if_splits)
  have "\<And>i. i < length (frames w) \<Longrightarrow>
      frames stego ! i = (if i < length ?bits then set_lsb (frames w ! i) (?bits ! i) else frames w ! i)"
    using embed_nth[of 0 ?bits "frames w"] le by (simp add: st)
  then show ?thesis
    using set_lsb_upper by (simp add: st embed_length bit_set_lsb)
qed

theorem lsb_frame_effect_witness:
  "encode_lsb (constant_wav 25 0xFFFF) [] = Some stego_empty \<and>
   params stego_empty = params (constant_wav 25 0xFFFF) \<and>
   length (frames stego_empty) = length (frames (constant_wav 25 0xFFFF)) \<and>
   2 < length (encode_bits []) \<and>
   drop_bit 1 (frames stego_empty ! 2) = drop_bit 1 (frames (constant_wav 25 0xFFFF) ! 2) \<and>
   bit (frames stego_empty ! 2) 0 = encode_bits [] ! 2 \<and>
   \<not> 24 < length (encode_bits []) \<and>
   frames stego_empty ! 24 = frames (constant_wav 25 0xFFFF) ! 24"
proof -
  have h: "encode_lsb (constant_wav 25 0xFFFF) [] = Some stego_empty"
    by (simp add: encode_lsb_eq encode_bits_empty constant_wav_def stego_empty_def
        numeral_eq_Suc set_lsb_def)
  have l: "length (encode_bits []) = 24" by (simp add: encode_bits_empty)
  from lsb_frame_effect[OF h]
  have a: "params stego_empty = params (constant_wav 25 0xFFFF)"
    and b: "length (frames stego_empty) = length (frames (constant_wav 25 0xFFFF))"
    and c: "\<forall>i < length (frames (constant_wav 25 0xFFFF)).
       if i < length (encode_bits [])
       then drop_bit 1 (frames stego_empty ! i) = drop_bit 1 (frames (constant_wav 25 0xFFFF) ! i) \<and>
            bit (frames stego_empty ! i) 0 = encode_bits [] ! i
       else frames stego_empty ! i = frames (constant_wav 25 0xFFFF) ! i"
    by blast+
  have n: "length (frames (constant_wav 25 0xFFFF)) = 25" by (simp add: constant_wav_def)
  from c[rule_format, of 2] c[rule_format, of 24] l n h a b show ?thesis
    by simp
qed

section \<open>What LSB decoding can return\<close>

text \<open>
  C10. Whenever \<open>decode_lsb\<close> returns a string other than
  \<open>"No hidden message found"\<close>, that string does not contain \<open>"###"\<close>.
\<close>

theorem lsb_decode_no_terminator:
  "decode_lsb w \<noteq> not_found \<Longrightarrow> \<not> sublist hashes (decode_lsb w)"
  using decode_chars_clean[of "[]" "map (\<lambda>s. s AND 1 = 1) (frames w)"]
  by (simp add: decode_lsb_eq hashes_def)

theorem lsb_decode_no_terminator_witness:
  "decode_lsb stego_A \<noteq> not_found \<and> \<not> sublist hashes (decode_lsb stego_A)"
proof -
  have "decode_lsb stego_A = [65]"
    unfolding decode_lsb_eq stego_A_def
    by (simp add: decode_chars.simps from_bin_def endswith_def hashes_def Let_def suffix_Cons)
  then have h: "decode_lsb stego_A \<noteq> not_found" by (simp add: not_found_def str_def)
  show ?thesis using h lsb_decode_no_terminator[OF h] by simp
qed

section \<open>Echo capacity\<close>

text \<open>
  C5. With a message of single-byte characters (the message type of the data model) and
  \<open>chunk_size = 8192\<close>, \<open>encode_echo_simple\<close> returns \<open>None\<close>, the Capacity Exceeded
  result, exactly when \<open>8 * (len(message) + 3) * chunk_size + max(d0, d1)\<close> exceeds the
  number of samples; in particular for a 2-character message, delays 200 and 400 and a
  buffer of 50,000 samples.
\<close>

theorem echo_capacity:
  assumes "\<forall>c\<in>set message. c < 256"
  shows "chunk_size = 8192 \<and> length (encode_bits message) = 8 * (length message + 3) \<and>
    (encode_echo_simple ops w message d0 d1 alpha = None) =
      (8 * (length message + 3) * chunk_size + max d0 d1 > length (frames w)) \<and>
    (length message = 2 \<and> length (frames w) = 50000 \<longrightarrow>
       encode_echo_simple ops w message 200 400 alpha = None)"
  using length_encode_bits[OF assms] by (simp add: encode_echo_eq chunk_size_def)

theorem echo_capacity_witness:
  "set [72, 73] \<subseteq> {c. c < (256::nat)} \<and>
   8 * (length [72, 73 :: nat] + 3) * chunk_size + max 200 400 = 328080 \<and>
   328080 > length (frames (silence 50000)) \<and>
   length (frames (silence 50000)) = 50000 \<and>
   encode_echo_simple exact_ops (silence 50000) [72, 73] 200 400 (1 / 2) = None"
  using echo_capacity[of "[72, 73]" exact_ops "silence 50000" 200 400 "1 / 2"]
  by (simp add: silence_def constant_wav_def chunk_size_def)

section \<open>Echo encode effect\<close>

text \<open>
  C7, as amended. When \<open>encode_echo_simple\<close> accepts a call, the returned buffer has the
  input's format parameters and as many samples. Every bit index \<open>i\<close> has its full
  window \<open>[i * chunk_size, i * chunk_size + chunk_size)\<close> below
  \<open>number_of_samples - max_delay\<close> and its shifted destination within the buffer, so no
  window is clipped and no echo is dropped. Each output sample is the input sample
  plus, for every bit whose window shifted by its delay (\<open>d1\<close> for a 1, \<open>d0\<close> for a 0)
  covers the index, \<open>alpha\<close> times the sample one delay before, then clipped to
  \<open>[-32768, 32767]\<close> and truncated to a signed 16-bit integer. Samples at or beyond
  index \<open>len(bits) * chunk_size + max(d0, d1)\<close> are left unmodified.
\<close>

theorem echo_encode_effect:
  assumes "encode_echo_simple ops w message d0 d1 alpha \<noteq> None"
  shows "\<exists>stego. encode_echo_simple ops w message d0 d1 alpha = Some stego \<and>
    params stego = params w \<and> length (frames stego) = length (frames w) \<and>
    (\<forall>i < length (encode_bits message).
       i * chunk_size + chunk_size + max d0 d1 \<le> length (frames w)) \<and>
    (\<forall>j < length (frames w).
       frames stego ! j = to_int16 (clip
         (echo_at ops (map int16_val (frames w)) d0 d1 alpha (encode_bits message) j)) \<and>
       sint (frames stego ! j) = trunc (clip
         (echo_at ops (map int16_val (frames w)) d0 d1 alpha (encode_bits message) j)) \<and>
       (length (encode_bits message) * chunk_size + max d0 d1 \<le> j \<longrightarrow>
          frames stego ! j = frames w ! j))"
proof -
  from assms have cap: "length (encode_bits message) * chunk_size + max d0 d1 \<le> length (frames w)"
    by (auto simp: encode_echo_eq split: if_splits)
  from encode_echo_frames[OF cap, of ops alpha] obtain stego where
    st: "encode_echo_simple ops w message d0 d1 alpha = Some stego"
      "params stego = params w" "length (frames stego) = length (frames w)"
      "\<forall>j < length (frames w). frames stego ! j =
         to_int16 (clip (echo_at ops (map int16_val (frames w)) d0 d1 alpha (encode_bits message) j))"
    by blast
  have "\<forall>i < length (encode_bits message).
       i * chunk_size + chunk_size + max d0 d1 \<le> length (frames w)"
    using echo_fit[OF cap] by blast
  moreover have "frames stego ! j = frames w ! j"
    if "j < length (frames w)" "length (encode_bits message) * chunk_size + max d0 d1 \<le> j" for j
    using that st(4) echo_at_beyond[OF that(2), of ops "map int16_val (frames w)" alpha]
    by (simp add: to_int16_val clip_int16_val)
  ultimately show ?thesis using st by (auto simp: sint_to_int16_clip)
qed

theorem echo_encode_effect_witness:
  "encode_echo_simple exact_ops (constant_wav 197100 30000) [] 200 400 (1 / 2) \<noteq> None \<and>
   (\<exists>stego. encode_echo_simple exact_ops (constant_wav 197100 30000) [] 200 400 (1 / 2) = Some stego \<and>
      params stego = pcm_params 197100 \<and> length (frames stego) = 197100 \<and>
      23 * chunk_size + chunk_size + max 200 400 \<le> length (frames (constant_wav 197100 30000)) \<and>
      frames stego ! 196608 = 32767 \<and> sint (frames stego ! 196608) = 32767 \<and>
      frames stego ! 197050 = 30000)"
proof -
  let ?w = "constant_wav 197100 30000"
  have l: "length (encode_bits []) = 24" by (simp add: encode_bits_empty)
  have h: "encode_echo_simple exact_ops ?w [] 200 400 (1 / 2) \<noteq> None"
    by (simp add: encode_echo_eq l chunk_size_def constant_wav_def)
  have v: "to_int16 (clip (echo_at exact_ops (map int16_val (frames ?w)) 200 400 (1 / 2)
        (encode_bits []) 196608)) = 32767"
    by (simp add: constant_wav_def echo_at_constant int16_val_def to_int16_def clip_def trunc_def)
  from echo_encode_effect[OF h] obtain stego where
    st: "encode_echo_simple exact_ops ?w [] 200 400 (1 / 2) = Some stego"
      "params stego = params ?w" "length (frames stego) = length (frames ?w)"
      "\<forall>i < length (encode_bits []). i * chunk_size + chunk_size + max 200 400 \<le> length (frames ?w)"
      "\<forall>j < length (frames ?w).
       frames stego ! j = to_int16 (clip
         (echo_at exact_ops (map int16_val (frames ?w)) 200 400 (1 / 2) (encode_bits []) j)) \<and>
       sint (frames stego ! j) = trunc (clip
         (echo_at exact_ops (map int16_val (frames ?w)) 200 400 (1 / 2) (encode_bits []) j)) \<and>
       (length (encode_bits []) * chunk_size + max 200 400 \<le> j \<longrightarrow>
          frames stego ! j = frames ?w ! j)"
    by blast
  have a: "frames stego ! 196608 = 32767"
    using st(5)[rule_format, of 196608] v by (simp add: constant_wav_def)
  have b: "frames stego ! 197050 = 30000"
  proof -
    have "length (encode_bits []) * chunk_size + max 200 400 \<le> (197050::nat)"
      by (simp add: l chunk_size_def)
    moreover have "197050 < length (frames ?w)" by (simp add: constant_wav_def)
    ultimately have "frames stego ! 197050 = frames ?w ! 197050" using st(5) by blast
    then show ?thesis by (simp add: constant_wav_def)
  qed
  have c: "23 * chunk_size + chunk_size + max 200 400 \<le> length (frames ?w)"
    using st(4)[rule_format, of 23] by (simp add: l)
  have d: "sint (frames stego ! 196608) = 32767" using a by simp
  show ?thesis using h st(1-3) a b c d by (auto simp: constant_wav_def)
qed

text \<open>
  The chunk after the last encoded bit is not left unmodified: the echo of the last bit
  reaches one delay into it. With the message \<open>"A"\<close> (32 bits), delays 200 and 400,
  \<open>alpha = 0.5\<close> and a constant level of 1000, sample \<open>32 * 8192\<close> becomes 1500; these
  values are exact in \<open>float32\<close>.
\<close>

theorem echo_encode_effect_counterexample:
  "length (encode_bits [65]) * chunk_size \<le> 262144 \<and>
   frames (constant_wav 262600 1000) ! 262144 = 1000 \<and>
   map_option (\<lambda>stego. frames stego ! 262144)
     (encode_echo_simple exact_ops (constant_wav 262600 1000) [65] 200 400 (1 / 2)) = Some 1500"
proof -
  let ?w = "constant_wav 262600 1000"
  have l: "length (encode_bits [65]) = 32" by (simp add: encode_bits_A)
  have cap: "length (encode_bits [65]) * chunk_size + max 200 400 \<le> length (frames ?w)"
    by (simp add: l chunk_size_def constant_wav_def)
  have v: "to_int16 (clip (echo_at exact_ops (map int16_val (frames ?w)) 200 400 (1 / 2)
        (encode_bits [65]) 262144)) = 1500"
    by (simp add: constant_wav_def echo_at_constant_A int16_val_def to_int16_def clip_def trunc_def)
  from encode_echo_frames[OF cap, of exact_ops "1 / 2"] obtain stego where
    st: "encode_echo_simple exact_ops ?w [65] 200 400 (1 / 2) = Some stego"
      "\<forall>j < length (frames ?w). frames stego ! j =
         to_int16 (clip (echo_at exact_ops (map int16_val (frames ?w)) 200 400 (1 / 2) (encode_bits [65]) j))"
    by blast
  have "frames stego ! 262144 = 1500"
    using st(2)[rule_format, of 262144] v by (simp add: constant_wav_def)
  then show ?thesis using st(1) by (simp add: l chunk_size_def constant_wav_def)
qed

section \<open>Echo decode mechanics\<close>

text \<open>
  C8. For any two buffers and delays, \<open>decode_echo_simple\<close> processes
  \<open>num_chunks = floor((min(len(original), len(stego)) - max(d0, d1)) / chunk_size)\<close>
  chunks (none when that number is negative) and never fails on buffers of different
  length: the result is that of the two buffers cut to the shorter length. For each
  chunk the decided bit is 1 exactly when the correlation magnitude at offset \<open>d1\<close> is
  greater than the one at \<open>d0\<close>, so equality gives 0, and one diagnostic entry
  \<open>(i, corr_d0, corr_d1, bit)\<close> is recorded per chunk.
\<close>

theorem echo_decode_mechanics:
  "let original = map int16_val (frames ob); stego = map int16_val (frames sb);
       n = num_chunks_spec (length (frames ob)) (length (frames sb)) d0 d1;
       shorter = min (length (frames ob)) (length (frames sb))
   in case decode_echo_simple ops ob sb d0 d1 of (msg, debug_info, bits) \<Rightarrow>
        int (length bits) = max 0 n \<and> length debug_info = length bits \<and>
        (\<forall>i < length bits.
           bits ! i = (corr_at ops original stego d1 i > corr_at ops original stego d0 i) \<and>
           debug_info ! i =
             (i, corr_at ops original stego d0 i, corr_at ops original stego d1 i, bits ! i)) \<and>
        decode_echo_simple ops (truncated shorter ob) (truncated shorter sb) d0 d1 =
          (msg, debug_info, bits)"
proof -
  let ?o = "map int16_val (frames ob)" and ?s = "map int16_val (frames sb)"
  let ?m = "min (length (frames ob)) (length (frames sb))"
  have t: "echo_detect ops (map int16_val (frames (truncated ?m ob)))
             (map int16_val (frames (truncated ?m sb))) d0 d1 = echo_detect ops ?o ?s d0 d1"
    using echo_detect_take[of ?m ?o ?s ops d0 d1] by (simp add: truncated_def take_map)
  let ?n = "nat (num_chunks_spec (length ?o) (length ?s) d0 d1)"
  let ?bits = "map (\<lambda>k. corr_at ops ?o ?s d1 k > corr_at ops ?o ?s d0 k) [0..<?n]"
  let ?dbg = "map (\<lambda>k. (k, corr_at ops ?o ?s d0 k, corr_at ops ?o ?s d1 k,
                     corr_at ops ?o ?s d1 k > corr_at ops ?o ?s d0 k)) [0..<?n]"
  have d: "echo_detect ops ?o ?s d0 d1 = (?bits, ?dbg)" by (rule echo_detect_spec)
  have r1: "decode_echo_simple ops ob sb d0 d1 = (echo_chars ?bits [], ?dbg, ?bits)"
    by (simp only: decode_echo_eq d Let_def prod.case)
  have r2: "decode_echo_simple ops (truncated ?m ob) (truncated ?m sb) d0 d1 =
      (echo_chars ?bits [], ?dbg, ?bits)"
    by (simp only: decode_echo_eq t d Let_def prod.case)
  show ?thesis
    unfolding Let_def r1 r2 by simp
qed

theorem echo_decode_mechanics_witness:
  "num_chunks_spec (length (frames (constant_wav 9000 1000)))
     (length (frames (constant_wav 8700 1500))) 200 400 = 1 \<and>
   corr_at exact_ops (map int16_val (frames (constant_wav 9000 1000)))
     (map int16_val (frames (constant_wav 8700 1500))) 200 0 = 4096000000 \<and>
   corr_at exact_ops (map int16_val (frames (constant_wav 9000 1000)))
     (map int16_val (frames (constant_wav 8700 1500))) 400 0 = 4096000000 \<and>
   decode_echo_simple exact_ops (constant_wav 9000 1000) (constant_wav 8700 1500) 200 400 =
     (not_found, [(0, 4096000000, 4096000000, False)], [False]) \<and>
   decode_echo_simple exact_ops (truncated 8700 (constant_wav 9000 1000))
     (truncated 8700 (constant_wav 8700 1500)) 200 400 =
     (not_found, [(0, 4096000000, 4096000000, False)], [False])"
proof -
  let ?ob = "constant_wav 9000 1000" and ?sb = "constant_wav 8700 1500"
  let ?o = "map int16_val (frames ?ob)" and ?s = "map int16_val (frames ?sb)"
  have n: "num_chunks_spec (length (frames ?ob)) (length (frames ?sb)) 200 400 = 1"
    by (simp add: num_chunks_spec_def chunk_size_def constant_wav_def)
  have m: "min (length (frames ?ob)) (length (frames ?sb)) = 8700"
    by (simp add: constant_wav_def)
  have c0: "corr_at exact_ops ?o ?s 200 0 = 4096000000"
    using corr_at_constant[of 0 200 9000 8700 1000 1500]
    by (simp add: constant_wav_def int16_val_def chunk_size_def)
  have c1: "corr_at exact_ops ?o ?s 400 0 = 4096000000"
    using corr_at_constant[of 0 400 9000 8700 1000 1500]
    by (simp add: constant_wav_def int16_val_def chunk_size_def)
  obtain msg dbg bits where
    r: "decode_echo_simple exact_ops ?ob ?sb 200 400 = (msg, dbg, bits)"
    by (cases "decode_echo_simple exact_ops ?ob ?sb 200 400") auto
  from echo_decode_mechanics[of ?ob ?sb 200 400 exact_ops]
  have l: "int (length bits) = 1" "length dbg = length bits"
    and e: "\<forall>i < length bits.
           bits ! i = (corr_at exact_ops ?o ?s 400 i > corr_at exact_ops ?o ?s 200 i) \<and>
           dbg ! i = (i, corr_at exact_ops ?o ?s 200 i, corr_at exact_ops ?o ?s 400 i, bits ! i)"
    and t: "decode_echo_simple exact_ops (truncated 8700 ?ob) (truncated 8700 ?sb) 200 400 =
          (msg, dbg, bits)"
    unfolding Let_def r n m by simp_all
  from l have lb: "length bits = 1" and ld: "length dbg = 1" by simp_all
  from e lb have e0: "bits ! 0 = False" "dbg ! 0 = (0, 4096000000, 4096000000, False)"
    by (simp_all add: c0 c1)
  have b: "bits = [False]" using e0(1) lb by (cases bits) simp_all
  have d: "dbg = [(0, 4096000000, 4096000000, False)]" using e0(2) ld by (cases dbg) simp_all
  have "msg = echo_chars bits []"
    using r by (simp add: decode_echo_eq split: prod.splits)
  then have "msg = not_found" unfolding b by (simp add: echo_chars.simps)
  then show ?thesis using n c0 c1 r t b d by simp
qed

section \<open>Echo decode byte guard\<close>

text \<open>
  C9. In the character assembly of \<open>decode_echo_simple\<close>, a complete group of 8 decided
  bits whose value is 0 or greater than 127 ends the decoding by the range check; if no
  terminator was found among the characters before it, the call returns
  \<open>"No hidden message found"\<close> together with the diagnostics and the bitstream of the
  detection stage in full, one entry and one bit per processed chunk. The model has no
  error outcome.
\<close>

theorem echo_byte_guard:
  assumes "decode_echo_simple ops ob sb d0 d1 = (msg, debug_info, bits)"
    and "8 * k + 8 \<le> length bits"
    and "byte_value bits k = 0 \<or> byte_value bits k > 127"
    and "\<forall>j \<le> k. \<not> endswith (map (byte_value bits) [0..<j]) hashes"
  shows "msg = not_found \<and>
    (bits, debug_info) =
       echo_detect ops (map int16_val (frames ob)) (map int16_val (frames sb)) d0 d1 \<and>
    length debug_info = length bits \<and>
    int (length bits) = max 0 (num_chunks_spec (length (frames ob)) (length (frames sb)) d0 d1)"
proof -
  from assms(1) have m: "msg = echo_chars bits []"
    and d: "(bits, debug_info) =
       echo_detect ops (map int16_val (frames ob)) (map int16_val (frames sb)) d0 d1"
    by (auto simp: decode_echo_eq split: prod.splits)
  have "echo_chars bits [] = not_found"
    using echo_chars_stop[OF assms(2,3), of "[]"] assms(4) by simp
  moreover have "length debug_info = length bits"
    "int (length bits) = max 0 (num_chunks_spec (length (frames ob)) (length (frames sb)) d0 d1)"
    using d by (simp_all add: echo_detect_spec)
  ultimately show ?thesis using m d by simp
qed

theorem echo_byte_guard_witness:
  "decode_echo_simple exact_ops (silence 66000) (silence 66000) 200 400 =
     (not_found, map (\<lambda>k. (k, 0, 0, False)) [0..<8], replicate 8 False) \<and>
   8 * 0 + 8 \<le> length (replicate 8 False) \<and>
   byte_value (replicate 8 False) 0 = 0 \<and>
   \<not> endswith (map (byte_value (replicate 8 False)) [0..<0]) hashes \<and>
   num_chunks_spec (length (frames (silence 66000))) (length (frames (silence 66000))) 200 400 = 8"
proof -
  let ?bits = "replicate 8 False" and ?dbg = "map (\<lambda>k::nat. (k, 0::real, 0::real, False)) [0..<8]"
  have h: "decode_echo_simple exact_ops (silence 66000) (silence 66000) 200 400 =
      (echo_chars ?bits [], ?dbg, ?bits)"
    by (simp only: decode_echo_eq echo_detect_silence Let_def prod.case)
  have a: "8 * 0 + 8 \<le> length ?bits" by simp
  have "from_bin (replicate 8 False @ []) = 0" unfolding from_bin_pad by (simp add: from_bin_def)
  then have b0: "byte_value ?bits 0 = 0" by (simp add: byte_value_0)
  then have b: "byte_value ?bits 0 = 0 \<or> byte_value ?bits 0 > 127" by simp
  have e: "\<not> endswith (map (byte_value ?bits) [0..<0]) hashes"
    by (simp add: endswith_def hashes_def)
  then have c: "\<forall>j \<le> 0. \<not> endswith (map (byte_value ?bits) [0..<j]) hashes" by simp
  from echo_byte_guard[OF h a b c]
  have "echo_chars ?bits [] = not_found"
    and "int (length ?bits) = max 0 (num_chunks_spec (length (frames (silence 66000)))
           (length (frames (silence 66000))) 200 400)" by simp_all
  then show ?thesis using h a b0 e by simp
qed

section \<open>Echo round trip\<close>




end
